theory Spec2Isabelle
  imports Complex_Main
begin

section \<open>Naive chess engine: board, move generation and search tree\<close>

text \<open>
  A shallow embedding of \<^verbatim>\<open>pieces.py\<close>, \<^verbatim>\<open>board.py\<close>, \<^verbatim>\<open>engine.py\<close> and the
  part of \<^verbatim>\<open>game.py\<close> that drives them.  Exceptions are values of the type
  \<open>error\<close>; the objects that the Python code shares between boards (the \<^verbatim>\<open>GamePiece\<close>
  instances) live in an explicit store, so that a write through one board is visible
  through every other board that holds the same object.
\<close>

subsection \<open>Exceptions\<close>

text \<open>
  \<open>InvalidPositionException\<close> is a subclass of \<open>ValueError\<close> in the source; the two are
  kept apart because \<^verbatim>\<open>generate_legal_moves\<close> catches only the former.  \<open>IndexError\<close> and
  \<open>AttributeError\<close> are what Python raises when a \<^verbatim>\<open>Square\<close> off the board or an
  \<^verbatim>\<open>EmptyMove\<close> is hashed.  \<open>Diverges\<close> is not an exception: it stands for a loop that
  would never exit.
\<close>

datatype error = ValueError | InvalidPositionException | KeyError | IndexError
  | AttributeError | Diverges

subsection \<open>pieces.py\<close>

datatype PieceType = PAWN | KNIGHT | BISHOP | ROOK | QUEEN | KING

datatype Color = WHITE | BLACK

text \<open>\<^verbatim>\<open>max_distance\<close> is \<^verbatim>\<open>math.inf\<close>, 1 or 2 in the source.\<close>

datatype max_dist = Steps nat | Unbounded

fun exceeds :: "nat \<Rightarrow> max_dist \<Rightarrow> bool" where
  "exceeds d Unbounded = False"
| "exceeds d (Steps n) = (n < d)"

record MovementVector =
  direction :: "int \<times> int"
  max_distance :: max_dist
  can_capture :: bool
  can_only_capture :: bool

definition mk_vector :: "int \<times> int \<Rightarrow> max_dist \<Rightarrow> bool \<Rightarrow> bool \<Rightarrow> MovementVector" where
  "mk_vector d m c oc =
     \<lparr>direction = d, max_distance = m, can_capture = c, can_only_capture = oc\<rparr>"

record Piece =
  ptype :: PieceType
  color :: Color
  has_moved :: bool
  vectors :: "MovementVector list"

fun piece_value :: "PieceType \<Rightarrow> int" where
  "piece_value PAWN = 1"
| "piece_value KNIGHT = 3"
| "piece_value BISHOP = 3"
| "piece_value ROOK = 5"
| "piece_value QUEEN = 9"
| "piece_value KING = 0"

definition knight_vectors :: "MovementVector list" where
  "knight_vectors =
     [mk_vector (1, 2) (Steps 1) True False, mk_vector (2, 1) (Steps 1) True False,
      mk_vector (2, -1) (Steps 1) True False, mk_vector (1, -2) (Steps 1) True False,
      mk_vector (-1, -2) (Steps 1) True False, mk_vector (-2, -1) (Steps 1) True False,
      mk_vector (-2, 1) (Steps 1) True False, mk_vector (-1, 2) (Steps 1) True False]"

definition bishop_vectors :: "MovementVector list" where
  "bishop_vectors =
     [mk_vector (1, 1) Unbounded True False, mk_vector (1, -1) Unbounded True False,
      mk_vector (-1, -1) Unbounded True False, mk_vector (-1, 1) Unbounded True False]"

definition rook_vectors :: "MovementVector list" where
  "rook_vectors =
     [mk_vector (1, 0) Unbounded True False, mk_vector (0, 1) Unbounded True False,
      mk_vector (-1, 0) Unbounded True False, mk_vector (0, -1) Unbounded True False]"

definition queen_vectors :: "MovementVector list" where
  "queen_vectors = rook_vectors @ bishop_vectors"

definition king_vectors :: "MovementVector list" where
  "king_vectors = map (\<lambda>m. mk_vector (direction m) (Steps 1) True False) queen_vectors"

definition pawn_vectors :: "Color \<Rightarrow> MovementVector list" where
  "pawn_vectors c =
     (let d = (if c = WHITE then 1 else -1)
      in [mk_vector (0, d) (Steps 2) False False,
          mk_vector (1, d) (Steps 1) True True,
          mk_vector (-1, d) (Steps 1) True True])"

text \<open>The constructors \<^verbatim>\<open>Pawn(color)\<close>, \<^verbatim>\<open>Knight(color)\<close>, ...\<close>

fun type_vectors :: "PieceType \<Rightarrow> Color \<Rightarrow> MovementVector list" where
  "type_vectors PAWN c = pawn_vectors c"
| "type_vectors KNIGHT c = knight_vectors"
| "type_vectors BISHOP c = bishop_vectors"
| "type_vectors ROOK c = rook_vectors"
| "type_vectors QUEEN c = queen_vectors"
| "type_vectors KING c = king_vectors"

definition new_piece :: "PieceType \<Rightarrow> Color \<Rightarrow> Piece" where
  "new_piece t c = \<lparr>ptype = t, color = c, has_moved = False, vectors = type_vectors t c\<rparr>"

text \<open>
  \<^verbatim>\<open>Piece.move\<close> sets \<^verbatim>\<open>has_moved\<close>; \<^verbatim>\<open>Pawn.move\<close> first shrinks its own first vector
  to one step (\<^verbatim>\<open>self.vectors[0].max_distance = 1\<close>).
\<close>

definition piece_move :: "Piece \<Rightarrow> Piece" where
  "piece_move p =
     (let vs = (if ptype p = PAWN
                then (case vectors p of
                        [] \<Rightarrow> []
                      | v # rest \<Rightarrow> v\<lparr>max_distance := Steps 1\<rparr> # rest)
                else vectors p)
      in p\<lparr>has_moved := True, vectors := vs\<rparr>)"

subsection \<open>board.py: Square\<close>

datatype Square = Square (col: int) (row: int)

definition cols :: "char list" where "cols = ''abcdefgh''"
definition rows :: "char list" where "rows = ''12345678''"

definition is_valid :: "Square \<Rightarrow> bool" where
  "is_valid s = (col s \<ge> 0 \<and> col s < int (length cols) \<and> row s \<ge> 0 \<and> row s < int (length rows))"

definition find_diff :: "Square \<Rightarrow> Square \<Rightarrow> int \<times> int" where
  "find_diff s e = (col e - col s, row e - row s)"

definition apply_diff :: "Square \<Rightarrow> int \<times> int \<Rightarrow> Square" where
  "apply_diff s d = Square (col s + fst d) (row s + snd d)"

text \<open>Python list indexing: an index in \<open>-len .. -1\<close> counts from the end, anything else
  out of range raises \<open>IndexError\<close>.\<close>

definition py_index :: "'a list \<Rightarrow> int \<Rightarrow> error + 'a" where
  "py_index xs i =
     (if 0 \<le> i \<and> i < int (length xs) then Inr (xs ! nat i)
      else if - int (length xs) \<le> i \<and> i < 0 then Inr (xs ! nat (int (length xs) + i))
      else Inl IndexError)"

definition get_position :: "Square \<Rightarrow> error + (char \<times> char)" where
  "get_position s =
     (case py_index cols (col s) of
        Inl e \<Rightarrow> Inl e
      | Inr c \<Rightarrow> (case py_index rows (row s) of Inl e \<Rightarrow> Inl e | Inr r \<Rightarrow> Inr (c, r)))"

definition to_name :: "Square \<Rightarrow> error + string" where
  "to_name s = (case get_position s of Inl e \<Rightarrow> Inl e | Inr (c, r) \<Rightarrow> Inr [c, r])"

text \<open>\<^verbatim>\<open>list.index\<close>: the first position of an element that is known to occur.\<close>

fun index_of :: "'a list \<Rightarrow> 'a \<Rightarrow> nat" where
  "index_of [] x = 0"
| "index_of (y # ys) x = (if x = y then 0 else Suc (index_of ys x))"

definition from_name :: "string \<Rightarrow> error + Square" where
  "from_name name =
     (if length name \<noteq> 2 then Inl ValueError
      else let col_name = name ! 0; row_name = name ! 1
           in if col_name \<notin> set cols \<or> row_name \<notin> set rows then Inl ValueError
              else Inr (Square (int (index_of cols col_name)) (int (index_of rows row_name))))"

text \<open>The pattern \<^verbatim>\<open>[a-h][1-8]\<close> of the specification, written without reference to
  \<open>from_name\<close>.\<close>

fun name_pattern :: "string \<Rightarrow> bool" where
  "name_pattern [c, r] = (c \<in> set ''abcdefgh'' \<and> r \<in> set ''12345678'')"
| "name_pattern _ = False"

subsection \<open>board.py: moves and pieces on squares\<close>

text \<open>
  \<^verbatim>\<open>EmptyMove\<close> is a \<^verbatim>\<open>Move\<close> whose constructor sets neither \<^verbatim>\<open>start\<close> nor \<^verbatim>\<open>end\<close>:
  reading either attribute raises \<open>AttributeError\<close>.
\<close>

datatype Move = Move Square Square | EmptyMove

fun move_start :: "Move \<Rightarrow> error + Square" where
  "move_start (Move s e) = Inr s"
| "move_start EmptyMove = Inl AttributeError"


text \<open>
  A \<^verbatim>\<open>Square\<close> hashes and compares through \<^verbatim>\<open>get_position()\<close>, so a dictionary keyed
  by squares is a dictionary keyed by positions, kept in insertion order.
\<close>

type_synonym pos = "char \<times> char"

definition sq_eq :: "Square \<Rightarrow> Square \<Rightarrow> error + bool" where
  "sq_eq a b =
     (case get_position a of
        Inl e \<Rightarrow> Inl e
      | Inr pa \<Rightarrow> (case get_position b of Inl e \<Rightarrow> Inl e | Inr pb \<Rightarrow> Inr (pa = pb)))"

text \<open>\<^verbatim>\<open>d[k] = v\<close>: an existing key keeps its place, a new key goes last.\<close>

fun dict_set :: "('k \<times> 'v) list \<Rightarrow> 'k \<Rightarrow> 'v \<Rightarrow> ('k \<times> 'v) list" where
  "dict_set [] k v = [(k, v)]"
| "dict_set ((k', v') # d) k v = (if k' = k then (k, v) # d else (k', v') # dict_set d k v)"

text \<open>\<^verbatim>\<open>del d[k]\<close>, for a key that the caller has found present.\<close>

fun dict_del :: "('k \<times> 'v) list \<Rightarrow> 'k \<Rightarrow> ('k \<times> 'v) list" where
  "dict_del [] k = []"
| "dict_del ((k', v') # d) k = (if k' = k then d else (k', v') # dict_del d k)"

text \<open>\<^verbatim>\<open>d[k]\<close> on a \<^verbatim>\<open>defaultdict(set)\<close> followed by a change \<open>f\<close> of the set found: a
  missing key is first entered with the empty set.\<close>

fun dd_update :: "('k \<times> 'v list) list \<Rightarrow> 'k \<Rightarrow> ('v list \<Rightarrow> 'v list) \<Rightarrow> ('k \<times> 'v list) list" where
  "dd_update [] k f = [(k, f [])]"
| "dd_update ((k', v') # d) k f =
     (if k' = k then (k', f v') # d else (k', v') # dd_update d k f)"

definition dd_get :: "('k \<times> 'v list) list \<Rightarrow> 'k \<Rightarrow> 'v list" where
  "dd_get d k = (case map_of d k of None \<Rightarrow> [] | Some v \<Rightarrow> v)"

record GamePiece =
  uuid :: nat
  piece :: Piece
  square :: Square
  possible_squares :: "(pos \<times> MovementVector) list"

text \<open>
  The store of \<^verbatim>\<open>GamePiece\<close> objects.  A reference is an index into the store;
  \<^verbatim>\<open>copy.deepcopy\<close> allocates a new cell.  Python has no dangling references, and no
  function below makes one.
\<close>

type_synonym ref = nat
type_synonym store = "GamePiece list"

definition deepcopy :: "store \<Rightarrow> ref \<Rightarrow> store \<times> ref" where
  "deepcopy h r = (h @ [h ! r], length h)"

text \<open>\<^verbatim>\<open>GamePiece.__eq__\<close> and \<^verbatim>\<open>__hash__\<close> go through \<^verbatim>\<open>_uuid\<close>, which a deep copy keeps.\<close>

definition same_piece :: "store \<Rightarrow> ref \<Rightarrow> ref \<Rightarrow> bool" where
  "same_piece h a b = (uuid (h ! a) = uuid (h ! b))"

text \<open>A set of pieces, in insertion order (Python fixes no order).\<close>

definition pset_mem :: "store \<Rightarrow> ref \<Rightarrow> ref list \<Rightarrow> bool" where
  "pset_mem h r ps = list_ex (same_piece h r) ps"

definition pset_discard :: "store \<Rightarrow> ref \<Rightarrow> ref list \<Rightarrow> ref list" where
  "pset_discard h r ps = filter (\<lambda>x. \<not> same_piece h r x) ps"

definition pset_add :: "store \<Rightarrow> ref \<Rightarrow> ref list \<Rightarrow> ref list" where
  "pset_add h r ps = (if pset_mem h r ps then ps else ps @ [r])"

text \<open>A set of squares that were all checked with \<open>is_valid\<close> before they went in; on
  such squares \<^verbatim>\<open>__eq__\<close> is equality of the coordinates.\<close>

definition sset_add :: "Square \<Rightarrow> Square list \<Rightarrow> Square list" where
  "sset_add s ss = (if s \<in> set ss then ss else ss @ [s])"

definition sset_discard :: "Square \<Rightarrow> Square list \<Rightarrow> Square list" where
  "sset_discard s ss = removeAll s ss"

text \<open>The dictionary \<^verbatim>\<open>_available_moves\<close>, keyed by pieces.\<close>

type_synonym avail = "(ref \<times> Square list) list"

fun av_find :: "store \<Rightarrow> avail \<Rightarrow> ref \<Rightarrow> Square list option" where
  "av_find h [] r = None"
| "av_find h ((k, v) # d) r = (if same_piece h k r then Some v else av_find h d r)"

fun av_del :: "store \<Rightarrow> avail \<Rightarrow> ref \<Rightarrow> avail" where
  "av_del h [] r = []"
| "av_del h ((k, v) # d) r = (if same_piece h k r then d else (k, v) # av_del h d r)"

fun av_update :: "store \<Rightarrow> avail \<Rightarrow> ref \<Rightarrow> (Square list \<Rightarrow> Square list) \<Rightarrow> avail" where
  "av_update h [] r f = [(r, f [])]"
| "av_update h ((k, v) # d) r f =
     (if same_piece h k r then (k, f v) # d else (k, v) # av_update h d r f)"

definition av_get :: "store \<Rightarrow> avail \<Rightarrow> ref \<Rightarrow> Square list" where
  "av_get h d r = (case av_find h d r of None \<Rightarrow> [] | Some v \<Rightarrow> v)"

text \<open>\<^verbatim>\<open>GamePiece.move\<close>\<close>

definition gp_move :: "GamePiece \<Rightarrow> Square \<Rightarrow> GamePiece" where
  "gp_move g s = g\<lparr>piece := piece_move (piece g), square := s, possible_squares := []\<rparr>"

subsection \<open>board.py: KingLocations, CheckVectors, BoardState\<close>

record KingLocations =
  white_king :: Square
  black_king :: Square

definition kl_get :: "KingLocations \<Rightarrow> Color \<Rightarrow> Square" where
  "kl_get k c = (if c = WHITE then white_king k else black_king k)"

text \<open>\<^verbatim>\<open>KingLocations.move\<close>; \<^verbatim>\<open>x in d.values()\<close> compares with the values in order and
  stops at the first that is equal.\<close>

definition kl_move :: "KingLocations \<Rightarrow> Move \<Rightarrow> error + KingLocations" where
  "kl_move k mv =
     (case mv of
        EmptyMove \<Rightarrow> Inl AttributeError
      | Move st en \<Rightarrow>
          (case sq_eq (white_king k) st of
             Inl e \<Rightarrow> Inl e
           | Inr w \<Rightarrow>
               (case (if w then Inr True else sq_eq (black_king k) st) of
                  Inl e \<Rightarrow> Inl e
                | Inr found \<Rightarrow>
                    if \<not> found then Inr k
                    else (case sq_eq (black_king k) st of
                            Inl e \<Rightarrow> Inl e
                          | Inr bl \<Rightarrow>
                              Inr \<lparr>white_king = (if w then en else white_king k),
                                   black_king = (if bl then en else black_king k)\<rparr>))))"

text \<open>A \<^verbatim>\<open>CheckVectors\<close> object is its list of paths.\<close>

type_synonym CheckVectors = "Square list list"

text \<open>
  The loop of \<^verbatim>\<open>CheckVectors.add\<close>.  Every round but the first stands on a square of the
  board, and a non-zero direction leaves the board within eight steps, so only a zero
  direction uses up the nine rounds.
\<close>

fun add_path :: "nat \<Rightarrow> MovementVector \<Rightarrow> Square \<Rightarrow> nat \<Rightarrow> Square \<Rightarrow> Square list \<Rightarrow> error + Square list" where
  "add_path 0 v king distance new_square path = Inl Diverges"
| "add_path (Suc n) v king distance new_square path =
     (let path' = path @ [new_square]; distance' = distance + 1
      in if exceeds distance' (max_distance v) then Inl ValueError
         else let new_square' = apply_diff new_square (direction v)
              in if \<not> is_valid new_square' then Inl ValueError
                 else (case sq_eq new_square' king of
                         Inl e \<Rightarrow> Inl e
                       | Inr True \<Rightarrow> Inr path'
                       | Inr False \<Rightarrow> add_path n v king distance' new_square' path'))"

definition cv_add :: "CheckVectors \<Rightarrow> Square \<Rightarrow> Square \<Rightarrow> MovementVector \<Rightarrow> error + CheckVectors" where
  "cv_add cv attacker king v =
     (if \<not> can_capture v then Inl ValueError
      else (case add_path 9 v king 0 attacker [] of
              Inl e \<Rightarrow> Inl e
            | Inr path \<Rightarrow> Inr (cv @ [path])))"

definition blocking_squares :: "CheckVectors \<Rightarrow> Square list" where
  "blocking_squares cv = (if length cv \<noteq> 1 then [] else hd cv)"

record BoardState =
  last_move :: Move
  turn :: Color
  next_turn :: Color
  material :: int
  check_vectors :: "Color \<Rightarrow> CheckVectors"
  king_squares :: KingLocations

text \<open>\<^verbatim>\<open>BoardState.__init__\<close> with all five arguments given.\<close>

definition new_state :: "Move \<Rightarrow> Color \<Rightarrow> int \<Rightarrow> CheckVectors \<Rightarrow> KingLocations \<Rightarrow> BoardState" where
  "new_state mv t m checks ks =
     (let nt = (if t = BLACK then WHITE else BLACK)
      in \<lparr>last_move = mv, turn = t, next_turn = nt, material = m,
          check_vectors = ((\<lambda>c. []) (t := checks)) (nt := []),
          king_squares = ks\<rparr>)"

definition take_turn :: "BoardState \<Rightarrow> BoardState" where
  "take_turn s = s\<lparr>turn := next_turn s, next_turn := turn s\<rparr>"

subsection \<open>board.py: Board\<close>

record Board =
  state :: BoardState
  position :: "(pos \<times> ref) list"
  relevant_piece_squares :: "(pos \<times> ref list) list"
  available_moves :: avail

text \<open>
  The result of an operation on a board: the exception raised together with the store
  as the exception leaves it, or the store and the board.  The half-updated board of a
  failed \<^verbatim>\<open>make_move\<close> is not returned; \<^verbatim>\<open>make_child\<close>, the only caller, drops it.
\<close>

type_synonym 'a outcome = "(error \<times> store) + 'a"

text \<open>
  The body of the inner loop of \<^verbatim>\<open>prepare_moves\<close> for one candidate square, given the
  flag \<^verbatim>\<open>terminated\<close>; it returns the new flag.
\<close>

definition visit ::
  "ref \<Rightarrow> MovementVector \<Rightarrow> Square \<Rightarrow> bool \<Rightarrow> store \<Rightarrow> Board \<Rightarrow> (store \<times> Board \<times> bool) outcome" where
  "visit r v sq terminated h b =
     (case get_position sq of
        Inl e \<Rightarrow> Inl (e, h)
      | Inr k \<Rightarrow>
          if \<not> terminated then
            (let b1 = b\<lparr>relevant_piece_squares := dd_update (relevant_piece_squares b) k (pset_add h r)\<rparr>
             in case map_of (position b1) k of
                  Some hr \<Rightarrow>
                    (let held_by = h ! hr
                     in if color (piece held_by) \<noteq> color (piece (h ! r)) \<and> can_capture v then
                          (case (if ptype (piece held_by) = KING then
                                   (if color (piece held_by) = next_turn (state b1)
                                    then Inl InvalidPositionException
                                    else (case cv_add (check_vectors (state b1) (color (piece held_by)))
                                                 (square (h ! r)) (square held_by) v of
                                            Inl e \<Rightarrow> Inl e
                                          | Inr cv \<Rightarrow>
                                              Inr ((state b1)\<lparr>check_vectors :=
                                                     (check_vectors (state b1)) (color (piece held_by) := cv)\<rparr>)))
                                 else Inr (state b1)) of
                             Inl e \<Rightarrow> Inl (e, h)
                           | Inr s' \<Rightarrow>
                               Inr (h, b1\<lparr>state := s',
                                          available_moves := av_update h (available_moves b1) r (sset_add sq)\<rparr>,
                                    True))
                        else Inr (h, b1\<lparr>available_moves :=
                                          av_update h (available_moves b1) r (sset_discard sq)\<rparr>, True))
                | None \<Rightarrow>
                    if \<not> can_only_capture v
                    then Inr (h, b1\<lparr>available_moves :=
                                     av_update h (available_moves b1) r (sset_add sq)\<rparr>, False)
                    else Inr (h, b1\<lparr>available_moves :=
                                     av_update h (available_moves b1) r (sset_discard sq)\<rparr>, False))
          else Inr (h, b\<lparr>relevant_piece_squares :=
                           dd_update (relevant_piece_squares b) k (pset_discard h r),
                         available_moves := av_update h (available_moves b) r (sset_discard sq)\<rparr>, True))"

text \<open>
  \<^verbatim>\<open>GamePiece._generate_moves\<close> run by the inner loop of \<^verbatim>\<open>prepare_moves\<close>: the generator
  enters the square into the cache of the piece, the loop body handles it, the generator
  steps on.  The loop never breaks, so the generator runs to its own exit.  A round is
  only made on a square of the board, so a non-zero direction needs at most eight
  rounds; the first argument counts them down.
\<close>

fun scan ::
  "nat \<Rightarrow> ref \<Rightarrow> MovementVector \<Rightarrow> nat \<Rightarrow> Square \<Rightarrow> bool \<Rightarrow> store \<Rightarrow> Board \<Rightarrow> (store \<times> Board) outcome" where
  "scan 0 r v distance new_square terminated h b =
     (if exceeds distance (max_distance v) \<or> \<not> is_valid new_square then Inr (h, b)
      else Inl (Diverges, h))"
| "scan (Suc n) r v distance new_square terminated h b =
     (if exceeds distance (max_distance v) then Inr (h, b)
      else if \<not> is_valid new_square then Inr (h, b)
      else (case get_position new_square of
              Inl e \<Rightarrow> Inl (e, h)
            | Inr k \<Rightarrow>
                (let h1 = h[r := (h ! r)\<lparr>possible_squares := dict_set (possible_squares (h ! r)) k v\<rparr>]
                 in case visit r v new_square terminated h1 b of
                      Inl x \<Rightarrow> Inl x
                    | Inr (h2, b2, t2) \<Rightarrow>
                        scan n r v (distance + 1) (apply_diff new_square (direction v)) t2 h2 b2)))"

text \<open>\<^verbatim>\<open>initialize_moves\<close>: one scan for each vector of the piece, from the first square
  along it.\<close>

fun scan_vectors :: "ref \<Rightarrow> MovementVector list \<Rightarrow> store \<Rightarrow> Board \<Rightarrow> (store \<times> Board) outcome" where
  "scan_vectors r [] h b = Inr (h, b)"
| "scan_vectors r (v # vs) h b =
     (case scan 8 r v 1 (apply_diff (square (h ! r)) (direction v)) False h b of
        Inl x \<Rightarrow> Inl x
      | Inr (h1, b1) \<Rightarrow> scan_vectors r vs h1 b1)"

text \<open>\<^verbatim>\<open>update_moves\<close>: the cached vector through the start square of the move, then the one
  through its end square, each rescanned from that square on.\<close>

definition update_scan :: "ref \<Rightarrow> Move \<Rightarrow> store \<Rightarrow> Board \<Rightarrow> (store \<times> Board) outcome" where
  "update_scan r mv h b =
     (case mv of
        EmptyMove \<Rightarrow> Inl (AttributeError, h)
      | Move st en \<Rightarrow>
          (case get_position st of
             Inl e \<Rightarrow> Inl (e, h)
           | Inr ps \<Rightarrow>
               (case (case map_of (possible_squares (h ! r)) ps of
                        None \<Rightarrow> Inr (h, b)
                      | Some v \<Rightarrow> scan 8 r v 1 st False h b) of
                  Inl x \<Rightarrow> Inl x
                | Inr (h1, b1) \<Rightarrow>
                    (case get_position en of
                       Inl e \<Rightarrow> Inl (e, h1)
                     | Inr pe \<Rightarrow>
                         (case map_of (possible_squares (h1 ! r)) pe of
                            None \<Rightarrow> Inr (h1, b1)
                          | Some v \<Rightarrow> scan 8 r v 1 en False h1 b1)))))"

definition prepare_moves :: "ref \<Rightarrow> Move option \<Rightarrow> store \<Rightarrow> Board \<Rightarrow> (store \<times> Board) outcome" where
  "prepare_moves r mvo h b =
     (case mvo of
        None \<Rightarrow> scan_vectors r (vectors (piece (h ! r))) h b
      | Some mv \<Rightarrow> update_scan r mv h b)"

fun prepare_all :: "ref list \<Rightarrow> Move option \<Rightarrow> store \<Rightarrow> Board \<Rightarrow> (store \<times> Board) outcome" where
  "prepare_all [] mvo h b = Inr (h, b)"
| "prepare_all (r # rs) mvo h b =
     (case prepare_moves r mvo h b of
        Inl x \<Rightarrow> Inl x
      | Inr (h1, b1) \<Rightarrow> prepare_all rs mvo h1 b1)"

text \<open>\<^verbatim>\<open>Board.rebuild\<close>\<close>

definition rebuild :: "store \<Rightarrow> Board \<Rightarrow> (store \<times> Board) outcome" where
  "rebuild h b =
     prepare_all (map snd (position b)) None h
       (b\<lparr>relevant_piece_squares := [], available_moves := []\<rparr>)"

text \<open>Lines 232 to 235 of \<^verbatim>\<open>make_move\<close> for one cached square of the moved piece: the
  copy takes the place of the original in the set of that square.\<close>

definition swap_in :: "store \<Rightarrow> ref \<Rightarrow> pos \<Rightarrow> (pos \<times> ref list) list \<Rightarrow> (pos \<times> ref list) list" where
  "swap_in h mp k rel =
     dd_update rel k (\<lambda>ps. if pset_mem h mp ps then pset_add h mp (pset_discard h mp ps) else ps)"

text \<open>Lines 240 to 245: the capture.\<close>

definition capture :: "pos \<Rightarrow> store \<Rightarrow> Board \<Rightarrow> Board outcome" where
  "capture pe h b =
     (case map_of (position b) pe of
        None \<Rightarrow> Inr b
      | Some cr \<Rightarrow>
          (let captured_piece = h ! cr;
               s' = (state b)\<lparr>material := material (state b) +
                        piece_value (ptype (piece captured_piece)) *
                        (if color (piece captured_piece) = BLACK then 1 else -1)\<rparr>
           in case av_find h (available_moves b) cr of
                None \<Rightarrow> Inl (KeyError, h)
              | Some _ \<Rightarrow>
                  Inr (b\<lparr>state := s',
                         available_moves := av_del h (available_moves b) cr,
                         relevant_piece_squares :=
                           fold (\<lambda>k rel. dd_update rel k (pset_discard h cr))
                             (map fst (possible_squares captured_piece))
                             (relevant_piece_squares b)\<rparr>)))"

text \<open>\<^verbatim>\<open>Board.make_move\<close>.  The two \<^verbatim>\<open>print\<close> calls before the turn error are left out.\<close>

definition make_move :: "Move \<Rightarrow> store \<Rightarrow> Board \<Rightarrow> (store \<times> Board) outcome" where
  "make_move mv h b =
     (case mv of
        EmptyMove \<Rightarrow> Inl (AttributeError, h)
      | Move st en \<Rightarrow>
          (case get_position st of
             Inl e \<Rightarrow> Inl (e, h)
           | Inr ps \<Rightarrow>
               (case map_of (position b) ps of
                  None \<Rightarrow> Inl (ValueError, h)
                | Some r0 \<Rightarrow>
                    (let (h1, moved_piece) = deepcopy h r0
                     in case av_find h1 (available_moves b) moved_piece of
                          None \<Rightarrow> Inl (KeyError, h1)
                        | Some _ \<Rightarrow>
                            (let b1 = b\<lparr>available_moves :=
                                          av_del h1 (available_moves b) moved_piece @ [(moved_piece, [])],
                                        relevant_piece_squares :=
                                          fold (swap_in h1 moved_piece)
                                            (map fst (possible_squares (h1 ! moved_piece)))
                                            (relevant_piece_squares b)\<rparr>
                             in if color (piece (h1 ! moved_piece)) \<noteq> turn (state b1)
                                then Inl (ValueError, h1)
                                else (case get_position en of
                                        Inl e \<Rightarrow> Inl (e, h1)
                                      | Inr pe \<Rightarrow>
                                          (case capture pe h1 b1 of
                                             Inl x \<Rightarrow> Inl x
                                           | Inr b2 \<Rightarrow>
                                               (let h2 = h1[moved_piece := gp_move (h1 ! moved_piece) en];
                                                    b3 = b2\<lparr>position :=
                                                              dict_del (dict_set (position b2) pe moved_piece) ps,
                                                            state := take_turn (state b2)\<rparr>
                                                in case prepare_moves moved_piece None h2 b3 of
                                                     Inl x \<Rightarrow> Inl x
                                                   | Inr (h3, b4) \<Rightarrow>
                                                       (let b5 = b4\<lparr>relevant_piece_squares :=
                                                                     dd_update (relevant_piece_squares b4) ps (\<lambda>x. x)\<rparr>
                                                        in prepare_all (dd_get (relevant_piece_squares b5) ps)
                                                             (Some mv) h3 b5)))))))))"

text \<open>
  \<^verbatim>\<open>Board.make_child\<close>: a new board with shallow copies of the three dictionaries (the
  same piece objects), a new \<^verbatim>\<open>BoardState\<close> that is given the mover's tracker of the
  parent, and the move applied to it.  The tracker object handed over is never written
  through the child: \<^verbatim>\<open>add\<close> is only called on the tracker of a colour other than
  \<^verbatim>\<open>next_turn\<close>, which in the child is the fresh one.
\<close>

definition make_child :: "Move \<Rightarrow> store \<Rightarrow> Board \<Rightarrow> (store \<times> Board) outcome" where
  "make_child mv h b =
     (case kl_move (king_squares (state b)) mv of
        Inl e \<Rightarrow> Inl (e, h)
      | Inr ks \<Rightarrow>
          make_move mv h
            \<lparr>state = new_state mv (turn (state b)) (material (state b))
                       (check_vectors (state b) (turn (state b))) ks,
             position = position b,
             relevant_piece_squares = relevant_piece_squares b,
             available_moves = available_moves b\<rparr>)"

text \<open>
  The \<^verbatim>\<open>try\<close> block around \<^verbatim>\<open>make_child\<close> in the enumeration of moves, for one piece on
  \<open>from\<close> and the squares it may go to: a child that raises
  \<open>InvalidPositionException\<close> is skipped, any other exception is raised again.  What a
  failed attempt wrote into the store stays there.
\<close>

fun try_moves :: "ref \<Rightarrow> Square list \<Rightarrow> store \<Rightarrow> Board \<Rightarrow> (store \<times> Board list) outcome" where
  "try_moves r [] h b = Inr (h, [])"
| "try_moves r (sq # sqs) h b =
     (case make_child (Move (square (h ! r)) sq) h b of
        Inl (e, h1) \<Rightarrow>
          if e = InvalidPositionException then try_moves r sqs h1 b else Inl (e, h1)
      | Inr (h1, c) \<Rightarrow>
          (case try_moves r sqs h1 b of
             Inl x \<Rightarrow> Inl x
           | Inr (h2, cs) \<Rightarrow> Inr (h2, c # cs)))"

fun try_pieces :: "(ref \<times> Square list) list \<Rightarrow> store \<Rightarrow> Board \<Rightarrow> (store \<times> Board list) outcome" where
  "try_pieces [] h b = Inr (h, [])"
| "try_pieces ((r, sqs) # rest) h b =
     (case try_moves r sqs h b of
        Inl x \<Rightarrow> Inl x
      | Inr (h1, cs) \<Rightarrow>
          (case try_pieces rest h1 b of
             Inl x \<Rightarrow> Inl x
           | Inr (h2, ds) \<Rightarrow> Inr (h2, cs @ ds)))"

text \<open>\<^verbatim>\<open>set(self.vectors[0])\<close> as the positions of its squares.\<close>

fun positions_of :: "Square list \<Rightarrow> error + pos list" where
  "positions_of [] = Inr []"
| "positions_of (s # ss) =
     (case get_position s of
        Inl e \<Rightarrow> Inl e
      | Inr k \<Rightarrow> (case positions_of ss of Inl e \<Rightarrow> Inl e | Inr ks \<Rightarrow> Inr (List.insert k ks)))"

definition square_in :: "Square \<Rightarrow> pos list \<Rightarrow> bool" where
  "square_in s ks = (case get_position s of Inl e \<Rightarrow> False | Inr k \<Rightarrow> k \<in> set ks)"

text \<open>
  \<^verbatim>\<open>_generate_legal_moves_from_check\<close>.  The members of the two sets are taken in
  insertion order.  The squares it tests with \<^verbatim>\<open>move in blocking_squares\<close> come from a
  set of available moves and are squares of the board.
\<close>

definition generate_legal_moves_from_check :: "store \<Rightarrow> Board \<Rightarrow> (store \<times> Board list) outcome" where
  "generate_legal_moves_from_check h b =
     (let s = state b; king_square = kl_get (king_squares s) (turn s)
      in case get_position king_square of
           Inl e \<Rightarrow> Inl (e, h)
         | Inr kk \<Rightarrow>
             (case map_of (position b) kk of
                None \<Rightarrow> Inl (ValueError, h)
              | Some king \<Rightarrow>
                  (case try_moves king (av_get h (available_moves b) king) h b of
                     Inl x \<Rightarrow> Inl x
                   | Inr (h1, cs) \<Rightarrow>
                       (case positions_of (blocking_squares (check_vectors s (turn s))) of
                          Inl e \<Rightarrow> Inl (e, h1)
                        | Inr blocking \<Rightarrow>
                            (let blocking_pieces =
                                   fold (\<lambda>k acc.
                                           fold (pset_add h1)
                                             (filter (\<lambda>p. color (piece (h1 ! p)) = turn s)
                                                (dd_get (relevant_piece_squares b) k)) acc)
                                     blocking []
                             in case try_pieces
                                       (map (\<lambda>p. (p, filter (\<lambda>m. square_in m blocking)
                                                        (av_get h1 (available_moves b) p)))
                                            blocking_pieces) h1 b of
                                  Inl x \<Rightarrow> Inl x
                                | Inr (h2, ds) \<Rightarrow> Inr (h2, cs @ ds))))))"

text \<open>\<^verbatim>\<open>Board.generate_legal_moves\<close>, with the boards it yields as a list.\<close>

definition generate_legal_moves :: "store \<Rightarrow> Board \<Rightarrow> (store \<times> Board list) outcome" where
  "generate_legal_moves h b =
     (if check_vectors (state b) (turn (state b)) \<noteq> [] then generate_legal_moves_from_check h b
      else try_pieces
             (filter (\<lambda>(p, s). color (piece (h ! p)) = turn (state b)) (available_moves b)) h b)"

subsection \<open>game.py: the starting position\<close>

text \<open>\<^verbatim>\<open>Square.from_name\<close> on a literal that matches the pattern.\<close>

definition square_named :: "string \<Rightarrow> Square" where
  "square_named name = Square (int (index_of cols (name ! 0))) (int (index_of rows (name ! 1)))"

definition name_key :: "string \<Rightarrow> pos" where
  "name_key name = (name ! 0, name ! 1)"

text \<open>\<^verbatim>\<open>Game.generate_starting_position\<close>, in the order of the dictionary literal.  The
  \<open>i\<close>-th piece made gets the identifier \<open>i\<close> (the source draws a random UUID) and the
  \<open>i\<close>-th cell of the store.\<close>

definition starting_layout :: "(string \<times> PieceType \<times> Color) list" where
  "starting_layout =
     [(''a1'', ROOK, WHITE), (''b1'', KNIGHT, WHITE), (''c1'', BISHOP, WHITE), (''d1'', QUEEN, WHITE),
      (''e1'', KING, WHITE), (''f1'', BISHOP, WHITE), (''g1'', KNIGHT, WHITE), (''h1'', ROOK, WHITE),
      (''a2'', PAWN, WHITE), (''b2'', PAWN, WHITE), (''c2'', PAWN, WHITE), (''d2'', PAWN, WHITE),
      (''e2'', PAWN, WHITE), (''f2'', PAWN, WHITE), (''g2'', PAWN, WHITE), (''h2'', PAWN, WHITE),
      (''a7'', PAWN, BLACK), (''b7'', PAWN, BLACK), (''c7'', PAWN, BLACK), (''d7'', PAWN, BLACK),
      (''e7'', PAWN, BLACK), (''f7'', PAWN, BLACK), (''g7'', PAWN, BLACK), (''h7'', PAWN, BLACK),
      (''a8'', ROOK, BLACK), (''b8'', KNIGHT, BLACK), (''c8'', BISHOP, BLACK), (''d8'', QUEEN, BLACK),
      (''e8'', KING, BLACK), (''f8'', BISHOP, BLACK), (''g8'', KNIGHT, BLACK), (''h8'', ROOK, BLACK)]"

definition place :: "(string \<times> PieceType \<times> Color) list \<Rightarrow> store \<times> (pos \<times> ref) list" where
  "place layout =
     (map (\<lambda>(i, (n, t, c)).
             \<lparr>uuid = i, piece = new_piece t c, square = square_named n, possible_squares = []\<rparr>)
          (enumerate 0 layout),
      map (\<lambda>(i, (n, t, c)). (name_key n, i)) (enumerate 0 layout))"

text \<open>\<^verbatim>\<open>BoardState(EmptyMove())\<close>: white to move, material 0, no checks, kings on e1 and
  e8.\<close>

definition initial_state :: BoardState where
  "initial_state =
     new_state EmptyMove WHITE 0 []
       \<lparr>white_king = square_named ''e1'', black_king = square_named ''e8''\<rparr>"

text \<open>The board of \<^verbatim>\<open>Game.__init__\<close>: \<^verbatim>\<open>Board(position, BoardState(EmptyMove()))\<close> followed
  by \<^verbatim>\<open>rebuild()\<close>.\<close>

definition board_of :: "(string \<times> PieceType \<times> Color) list \<Rightarrow> BoardState \<Rightarrow> (store \<times> Board) outcome" where
  "board_of layout s =
     rebuild (fst (place layout))
       \<lparr>state = s, position = snd (place layout),
        relevant_piece_squares = [], available_moves = []\<rparr>"

definition starting_board :: "(store \<times> Board) outcome" where
  "starting_board = board_of starting_layout initial_state"

text \<open>A line of play from a board: each move makes a child of the board before, as the
  search tree does.\<close>

fun play :: "Move list \<Rightarrow> (store \<times> Board) outcome \<Rightarrow> (store \<times> Board) outcome" where
  "play [] x = x"
| "play (mv # mvs) x =
     (case x of Inl e \<Rightarrow> Inl e | Inr (h, b) \<Rightarrow> play mvs (make_child mv h b))"

definition mv :: "string \<Rightarrow> string \<Rightarrow> Move" where
  "mv a b = Move (square_named a) (square_named b)"

subsection \<open>engine.py: the search tree\<close>

text \<open>
  Tree nodes refer to their parent and are held in Python sets, and
  \<^verbatim>\<open>update_child_leaves\<close> stores the very set object of a child in the dictionary of its
  parent.  So nodes and sets of nodes are objects in stores of their own, next to the
  store of pieces.  A node compares by identity.  Scores are Python floats; they are
  modelled as real numbers, without rounding.
\<close>

type_synonym nref = nat
type_synonym sref = nat
type_synonym mkey = "pos \<times> pos"

text \<open>\<^verbatim>\<open>Move.__hash__\<close>: \<^verbatim>\<open>hash((self.start, self.end))\<close>.\<close>

definition move_key :: "Move \<Rightarrow> error + mkey" where
  "move_key m =
     (case m of
        EmptyMove \<Rightarrow> Inl AttributeError
      | Move s e \<Rightarrow>
          (case get_position s of
             Inl x \<Rightarrow> Inl x
           | Inr ps \<Rightarrow> (case get_position e of Inl x \<Rightarrow> Inl x | Inr pe \<Rightarrow> Inr (ps, pe))))"

record MoveNode =
  board :: Board
  parent :: "nref option"
  move_number :: nat
  children :: "(mkey \<times> nref) list"
  size :: int
  child_sizes :: "(mkey \<times> int) list"
  score :: real
  sorted_child_scores :: "(real \<times> Move) list"
  leaf_nodes :: sref
  child_leaves :: "(mkey \<times> sref) list"
  is_checkmate :: bool
  is_stalemate :: bool

record world =
  pieces :: store
  nodes :: "MoveNode list"
  sets :: "nref list list"

type_synonym 'a woutcome = "(error \<times> world) + 'a"

definition node :: "world \<Rightarrow> nref \<Rightarrow> MoveNode" where
  "node w n = nodes w ! n"

definition set_node :: "nref \<Rightarrow> MoveNode \<Rightarrow> world \<Rightarrow> world" where
  "set_node n x w = w\<lparr>nodes := (nodes w)[n := x]\<rparr>"

definition leaves :: "world \<Rightarrow> nref \<Rightarrow> nref list" where
  "leaves w n = sets w ! leaf_nodes (node w n)"

text \<open>\<^verbatim>\<open>self.leaf_nodes.add(self)\<close>\<close>

definition add_self_leaf :: "nref \<Rightarrow> world \<Rightarrow> world" where
  "add_self_leaf n w =
     w\<lparr>sets := (sets w)[leaf_nodes (node w n) := List.insert n (leaves w n)]\<rparr>"

text \<open>\<^verbatim>\<open>_reset_children\<close>; every \<^verbatim>\<open>set()\<close> is a new object.\<close>

definition reset_children :: "nref \<Rightarrow> world \<Rightarrow> world" where
  "reset_children n w =
     (let x = node w n
      in set_node n
           (x\<lparr>children := [], size := 1, child_sizes := [],
              score := of_int (material (state (board x))), sorted_child_scores := [],
              leaf_nodes := length (sets w), child_leaves := [],
              is_checkmate := False, is_stalemate := False\<rparr>)
           (w\<lparr>sets := sets w @ [[]]\<rparr>))"

text \<open>
  \<^verbatim>\<open>update_child_size\<close>, a recursion along the parents.  A node is made after its
  parent, so the chain has no cycle and is shorter than the number of nodes, which is
  what the first argument is started with.
\<close>

fun update_child_size :: "nat \<Rightarrow> nref \<Rightarrow> nref \<Rightarrow> world \<Rightarrow> world woutcome" where
  "update_child_size 0 self child w = Inl (Diverges, w)"
| "update_child_size (Suc fuel) self child w =
     (case move_key (last_move (state (board (node w child)))) of
        Inl e \<Rightarrow> Inl (e, w)
      | Inr k \<Rightarrow>
          (let x = node w self;
               old_size = (case map_of (child_sizes x) k of None \<Rightarrow> 0 | Some s \<Rightarrow> s);
               w1 = set_node self
                      (x\<lparr>size := size x - old_size + size (node w child),
                         child_sizes := dict_set (child_sizes x) k (size (node w child))\<rparr>) w
           in case parent x of
                None \<Rightarrow> Inr w1
              | Some p \<Rightarrow> update_child_size fuel p self w1))"

text \<open>
  \<^verbatim>\<open>update_child_leaves\<close>.  \<^verbatim>\<open>self._child_leaves[move]\<close> on the \<^verbatim>\<open>defaultdict(set)\<close>
  makes a new empty set for a move not seen before; the assignment at the end stores the
  set object of the child itself.
\<close>

fun update_child_leaves :: "nat \<Rightarrow> nref \<Rightarrow> nref \<Rightarrow> world \<Rightarrow> world woutcome" where
  "update_child_leaves 0 self child w = Inl (Diverges, w)"
| "update_child_leaves (Suc fuel) self child w =
     (case move_key (last_move (state (board (node w child)))) of
        Inl e \<Rightarrow> Inl (e, w)
      | Inr k \<Rightarrow>
          (let x = node w self;
               (w0, old_leaves) =
                  (case map_of (child_leaves x) k of
                     Some s \<Rightarrow> (w, s)
                   | None \<Rightarrow> (w\<lparr>sets := sets w @ [[]]\<rparr>, length (sets w)));
               mine = leaf_nodes x;
               w1 = w0\<lparr>sets := (sets w0)[mine := filter (\<lambda>l. l \<notin> set (sets w0 ! old_leaves))
                                                    (sets w0 ! mine)]\<rparr>;
               w2 = w1\<lparr>sets := (sets w1)[mine := fold List.insert
                                                    (sets w1 ! leaf_nodes (node w1 child))
                                                    (sets w1 ! mine)]\<rparr>;
               w3 = set_node self
                      ((node w2 self)\<lparr>child_leaves :=
                          dict_set (child_leaves x) k (leaf_nodes (node w2 child))\<rparr>) w2
           in case parent x of
                None \<Rightarrow> Inr w3
              | Some p \<Rightarrow> update_child_leaves fuel p self w3))"

text \<open>The two calls that end both \<^verbatim>\<open>MoveNode.__init__\<close> and \<^verbatim>\<open>prepare_children\<close>.\<close>

definition notify_parent :: "nref \<Rightarrow> world \<Rightarrow> world woutcome" where
  "notify_parent n w =
     (case parent (node w n) of
        None \<Rightarrow> Inr w
      | Some p \<Rightarrow>
          (case update_child_size (length (nodes w)) p n w of
             Inl x \<Rightarrow> Inl x
           | Inr w1 \<Rightarrow> update_child_leaves (length (nodes w1)) p n w1))"

text \<open>\<^verbatim>\<open>MoveNode(board, parent)\<close>\<close>

definition new_node :: "Board \<Rightarrow> nref option \<Rightarrow> world \<Rightarrow> (world \<times> nref) woutcome" where
  "new_node bd par w =
     (let n = length (nodes w);
          x = \<lparr>board = bd, parent = par,
               move_number = (case par of None \<Rightarrow> 0 | Some p \<Rightarrow> move_number (node w p) + 1),
               children = [], size = 1, child_sizes = [],
               score = of_int (material (state bd)), sorted_child_scores = [],
               leaf_nodes = length (sets w), child_leaves = [],
               is_checkmate = False, is_stalemate = False\<rparr>;
          w1 = w\<lparr>nodes := nodes w @ [x], sets := sets w @ [[n]]\<rparr>
      in case notify_parent n w1 of
           Inl e \<Rightarrow> Inl e
         | Inr w2 \<Rightarrow> Inr (w2, n))"

text \<open>The loop of \<^verbatim>\<open>prepare_children\<close> over the boards of the enumeration.\<close>

fun add_children :: "nref \<Rightarrow> Board list \<Rightarrow> world \<Rightarrow> world woutcome" where
  "add_children self [] w = Inr w"
| "add_children self (bd # bds) w =
     (case new_node bd (Some self) w of
        Inl x \<Rightarrow> Inl x
      | Inr (w1, child) \<Rightarrow>
          (case move_key (last_move (state bd)) of
             Inl e \<Rightarrow> Inl (e, w1)
           | Inr k \<Rightarrow>
               add_children self bds
                 (set_node self
                    ((node w1 self)\<lparr>children := dict_set (children (node w1 self)) k child\<rparr>) w1)))"

text \<open>
  \<^verbatim>\<open>prepare_children\<close>.  The enumeration is a generator in the source and each child
  node is made as soon as its board is yielded; making a node does not touch the pieces,
  so the boards are enumerated first here.  The \<^verbatim>\<open>print\<close> of the handler is left out.
\<close>

definition prepare_children :: "nref \<Rightarrow> world \<Rightarrow> world woutcome" where
  "prepare_children n w =
     (let w1 = reset_children n w
      in case generate_legal_moves (pieces w1) (board (node w1 n)) of
           Inl (e, h) \<Rightarrow> Inl (e, w1\<lparr>pieces := h\<rparr>)
         | Inr (h, bds) \<Rightarrow>
             (case add_children n bds (w1\<lparr>pieces := h\<rparr>) of
                Inl x \<Rightarrow> Inl x
              | Inr w2 \<Rightarrow>
                  (let s = state (board (node w2 n));
                       w3 = (if children (node w2 n) = []
                             then (let w' = add_self_leaf n w2
                                   in if check_vectors s (turn s) \<noteq> []
                                      then set_node n ((node w' n)\<lparr>is_checkmate := True\<rparr>) w'
                                      else set_node n ((node w' n)\<lparr>is_stalemate := True\<rparr>) w')
                             else w2)
                   in notify_parent n w3)))"

text \<open>
  \<^verbatim>\<open>calculate_score\<close>.  \<^verbatim>\<open>sorted\<close> is stable, also with \<^verbatim>\<open>reverse=True\<close>, where equal
  scores keep their order.  The loop over the sorted pairs assigns to \<^verbatim>\<open>score\<close> in each
  round.  The recursion follows the children, which were made after their parent; the
  first argument bounds its depth.
\<close>

definition sort_scores :: "bool \<Rightarrow> (real \<times> Move) list \<Rightarrow> (real \<times> Move) list" where
  "sort_scores reverse xs = (if reverse then rev (sort_key fst (rev xs)) else sort_key fst xs)"

definition combine :: "(real \<times> Move) list \<Rightarrow> real" where
  "combine sorted_scores =
     fold (\<lambda>(index, (child_score, move)) score. child_score * (1 / 2) ^ index)
       (enumerate 0 sorted_scores) 0"

fun calculate_score :: "nat \<Rightarrow> nref \<Rightarrow> world \<Rightarrow> (world \<times> real) woutcome"
and score_children :: "nat \<Rightarrow> nref list \<Rightarrow> world \<Rightarrow> (world \<times> (real \<times> Move) list) woutcome" where
  "calculate_score 0 n w = Inl (Diverges, w)"
| "calculate_score (Suc fuel) n w =
     (let x = node w n;
          color_modifier = (if turn (state (board x)) = WHITE then 1 else -1)
      in if is_checkmate x then
           Inr (set_node n (x\<lparr>score := 100 * color_modifier\<rparr>) w, 100 * color_modifier)
         else if is_stalemate x then Inr (set_node n (x\<lparr>score := 0\<rparr>) w, 0)
         else if children x = [] then
           Inr (set_node n (x\<lparr>score := of_int (material (state (board x)))\<rparr>) w,
                of_int (material (state (board x))))
         else (case score_children fuel (map snd (children x)) w of
                 Inl e \<Rightarrow> Inl e
               | Inr (w1, scores) \<Rightarrow>
                   (let sorted_scores = sort_scores (turn (state (board x)) = BLACK) scores;
                        sc = combine sorted_scores
                    in Inr (set_node n ((node w1 n)\<lparr>sorted_child_scores := sorted_scores,
                                                    score := sc\<rparr>) w1, sc))))"
| "score_children fuel [] w = Inr (w, [])"
| "score_children fuel (c # cs) w =
     (case calculate_score fuel c w of
        Inl e \<Rightarrow> Inl e
      | Inr (w1, s) \<Rightarrow>
          (case score_children fuel cs w1 of
             Inl e \<Rightarrow> Inl e
           | Inr (w2, rest) \<Rightarrow> Inr (w2, (s, last_move (state (board (node w1 c)))) # rest)))"

subsection \<open>engine.py: Engine\<close>

text \<open>\<^verbatim>\<open>max_depth\<close> and \<^verbatim>\<open>max_breadth\<close> are floats, \<^verbatim>\<open>math.inf\<close> for no limit.\<close>

datatype limit = Finite real | Infinite

fun below :: "int \<Rightarrow> limit \<Rightarrow> bool" where
  "below i Infinite = True"
| "below i (Finite r) = (of_int i < r)"

record Engine =
  root :: nref
  max_depth :: limit
  max_breadth :: limit
  depth :: int

text \<open>\<^verbatim>\<open>Engine(start, max_depth, max_breadth)\<close>\<close>

definition new_engine :: "Board \<Rightarrow> limit \<Rightarrow> limit \<Rightarrow> world \<Rightarrow> (world \<times> Engine) woutcome" where
  "new_engine start md mb w =
     (case new_node start None w of
        Inl x \<Rightarrow> Inl x
      | Inr (w1, n) \<Rightarrow> Inr (w1, \<lparr>root = n, max_depth = md, max_breadth = mb, depth = 0\<rparr>))"

fun expand_all :: "nref list \<Rightarrow> world \<Rightarrow> world woutcome" where
  "expand_all [] w = Inr w"
| "expand_all (leaf # rest) w =
     (case prepare_children leaf w of
        Inl x \<Rightarrow> Inl x
      | Inr w1 \<Rightarrow> expand_all rest w1)"

text \<open>The \<^verbatim>\<open>while\<close> loop of \<^verbatim>\<open>build_tree\<close>.  Its result is \<open>None\<close> when the loop never
  exits.\<close>

partial_function (option) build_loop ::
  "Engine \<Rightarrow> world \<Rightarrow> ((error \<times> world \<times> Engine) + (world \<times> Engine)) option" where
  "build_loop e w =
     (if below (depth e) (max_depth e) \<and> below (size (node w (root e))) (max_breadth e)
      then (case expand_all (leaves w (root e)) w of
              Inl (x, w1) \<Rightarrow> Some (Inl (x, w1, e))
            | Inr w1 \<Rightarrow> build_loop (e\<lparr>depth := depth e + 1\<rparr>) w1)
      else Some (Inr (w, e)))"

declare build_loop.simps [code]

definition build_tree ::
  "Engine \<Rightarrow> world \<Rightarrow> ((error \<times> world \<times> Engine) + (world \<times> Engine)) option" where
  "build_tree e w =
     (case build_loop e w of
        None \<Rightarrow> None
      | Some (Inl x) \<Rightarrow> Some (Inl x)
      | Some (Inr (w1, e1)) \<Rightarrow>
          (case calculate_score (length (nodes w1)) (root e1) w1 of
             Inl (x, w2) \<Rightarrow> Some (Inl (x, w2, e1))
           | Inr (w2, s) \<Rightarrow> Some (Inr (w2, e1))))"

text \<open>
  \<^verbatim>\<open>Engine.make_move\<close>: the subscript \<^verbatim>\<open>self.root.children[move]\<close> hashes the move and
  looks it up before anything is assigned.
\<close>

definition engine_make_move :: "Move \<Rightarrow> Engine \<Rightarrow> world \<Rightarrow> (world \<times> Engine) woutcome" where
  "engine_make_move m e w =
     (case move_key m of
        Inl x \<Rightarrow> Inl (x, w)
      | Inr k \<Rightarrow>
          (case map_of (children (node w (root e))) k of
             None \<Rightarrow> Inl (KeyError, w)
           | Some c \<Rightarrow>
               Inr (set_node c ((node w c)\<lparr>parent := None\<rparr>) w,
                    e\<lparr>root := c, depth := depth e - 1\<rparr>)))"

subsection \<open>game.py: Game\<close>

record Game =
  engine :: Engine
  history :: "Move list"

text \<open>
  \<^verbatim>\<open>Game.make_move\<close>.  The result is the exception with the world and the game as the
  exception leaves them, or the new world and game; \<open>None\<close> when \<^verbatim>\<open>build_tree\<close> does not
  return.  An exception inside \<^verbatim>\<open>build_tree\<close> comes after the engine has taken the move.
\<close>

definition game_make_move :: "Move \<Rightarrow> Game \<Rightarrow> world \<Rightarrow> ((error \<times> world \<times> Game) + (world \<times> Game)) option" where
  "game_make_move m g w =
     (case engine_make_move m (engine g) w of
        Inl (x, w1) \<Rightarrow> Some (Inl (x, w1, g))
      | Inr (w1, e1) \<Rightarrow>
          (case build_tree e1 w1 of
             None \<Rightarrow> None
           | Some (Inl (x, w2, e2)) \<Rightarrow> Some (Inl (x, w2, g\<lparr>engine := e2\<rparr>))
           | Some (Inr (w2, e2)) \<Rightarrow> Some (Inr (w2, \<lparr>engine = e2, history = history g @ [m]\<rparr>))))"

subsection \<open>Attacked squares, recomputed from the placement alone\<close>

text \<open>
  Whether a piece attacks a square is decided here from the rules of movement and the
  squares that are occupied, without the caches and indexes of the board: some vector of
  the piece that may capture reaches the square within its distance, over empty squares
  only.
\<close>

fun ray_reaches :: "nat \<Rightarrow> (pos \<times> ref) list \<Rightarrow> MovementVector \<Rightarrow> nat \<Rightarrow> Square \<Rightarrow> Square \<Rightarrow> bool" where
  "ray_reaches 0 occupied v steps cur target = False"
| "ray_reaches (Suc n) occupied v steps cur target =
     (if exceeds steps (max_distance v) \<or> \<not> is_valid cur then False
      else if cur = target then True
      else (case get_position cur of
              Inl e \<Rightarrow> False
            | Inr k \<Rightarrow>
                (case map_of occupied k of
                   Some x \<Rightarrow> False
                 | None \<Rightarrow> ray_reaches n occupied v (steps + 1) (apply_diff cur (direction v)) target)))"

definition attacks :: "store \<Rightarrow> Board \<Rightarrow> ref \<Rightarrow> Square \<Rightarrow> bool" where
  "attacks h b r target =
     list_ex (\<lambda>v. can_capture v \<and>
                  ray_reaches 8 (position b) v 1 (apply_diff (square (h ! r)) (direction v)) target)
       (vectors (piece (h ! r)))"

definition attacked_by :: "store \<Rightarrow> Board \<Rightarrow> Color \<Rightarrow> Square \<Rightarrow> bool" where
  "attacked_by h b c target =
     list_ex (\<lambda>(k, r). color (piece (h ! r)) = c \<and> attacks h b r target) (position b)"

definition king_attacked :: "store \<Rightarrow> Board \<Rightarrow> Color \<Rightarrow> bool" where
  "king_attacked h b c =
     list_ex (\<lambda>(k, r). ptype (piece (h ! r)) = KING \<and> color (piece (h ! r)) = c \<and>
                       attacked_by h b (if c = WHITE then BLACK else WHITE) (square (h ! r)))
       (position b)"

text \<open>Some child of the enumeration has the king of the side that moved under attack.\<close>

definition yields_attacked_king :: "store \<Rightarrow> Board \<Rightarrow> bool" where
  "yields_attacked_king h b =
     (case generate_legal_moves h b of
        Inl x \<Rightarrow> False
      | Inr (h1, cs) \<Rightarrow> list_ex (\<lambda>c. king_attacked h1 c (turn (state b))) cs)"

subsection \<open>Positions used below\<close>

definition kings :: "string \<Rightarrow> string \<Rightarrow> KingLocations" where
  "kings w b = \<lparr>white_king = square_named w, black_king = square_named b\<rparr>"

text \<open>\<^verbatim>\<open>BoardState(EmptyMove(), turn, 0, CheckVectors(), KingLocations(w, b))\<close>\<close>

definition fresh_state :: "Color \<Rightarrow> string \<Rightarrow> string \<Rightarrow> BoardState" where
  "fresh_state t w b = new_state EmptyMove t 0 [] (kings w b)"

text \<open>King and bishop against king, black to move.\<close>

definition bishop_ending :: "(store \<times> Board) outcome" where
  "bishop_ending =
     board_of [(''e1'', KING, WHITE), (''e8'', KING, BLACK), (''g5'', BISHOP, WHITE)]
       (fresh_state BLACK ''e1'' ''e8'')"

text \<open>A bishop each, black to move.\<close>

definition two_bishops :: "(store \<times> Board) outcome" where
  "two_bishops =
     board_of [(''g1'', KING, WHITE), (''g5'', BISHOP, WHITE), (''g8'', KING, BLACK),
               (''f8'', BISHOP, BLACK)]
       (fresh_state BLACK ''g1'' ''g8'')"

text \<open>A white knight two squares in front of a white pawn that has not moved.\<close>

definition knight_before_pawn :: "(store \<times> Board) outcome" where
  "knight_before_pawn =
     board_of [(''g1'', KING, WHITE), (''g8'', KING, BLACK), (''e2'', PAWN, WHITE),
               (''e4'', KNIGHT, WHITE)]
       (fresh_state WHITE ''g1'' ''g8'')"

text \<open>The white queen behind the white king on the open e-file, black to move.\<close>

definition open_file :: "(store \<times> Board) outcome" where
  "open_file =
     board_of [(''e2'', KING, WHITE), (''e1'', QUEEN, WHITE), (''e8'', KING, BLACK),
               (''c8'', BISHOP, BLACK)]
       (fresh_state BLACK ''e2'' ''e8'')"

text \<open>A smothered mate: the white king in the corner behind its own rook and pawns,
  checked by a knight that nothing can take.  White to move.\<close>

definition smothered :: "(store \<times> Board) outcome" where
  "smothered =
     board_of [(''h1'', KING, WHITE), (''g1'', ROOK, WHITE), (''g2'', PAWN, WHITE),
               (''h2'', PAWN, WHITE), (''f2'', KNIGHT, BLACK), (''a8'', KING, BLACK)]
       (fresh_state WHITE ''h1'' ''a8'')"

text \<open>A white pawn that can only take the queen on its left or the rook on its right.\<close>

definition two_captures :: "(store \<times> Board) outcome" where
  "two_captures =
     board_of [(''b4'', PAWN, WHITE), (''a5'', QUEEN, BLACK), (''b5'', PAWN, BLACK),
               (''c5'', ROOK, BLACK)]
       (fresh_state WHITE ''e1'' ''e8'')"

definition empty_world :: world where
  "empty_world = \<lparr>pieces = [], nodes = [], sets = []\<rparr>"

text \<open>\<^verbatim>\<open>Engine(board, max_depth, max_breadth)\<close> on a board made as above.\<close>

definition engine_on :: "(store \<times> Board) outcome \<Rightarrow> limit \<Rightarrow> limit \<Rightarrow> (world \<times> Engine) woutcome" where
  "engine_on x md mb =
     (case x of
        Inl (e, h) \<Rightarrow> Inl (e, empty_world\<lparr>pieces := h\<rparr>)
      | Inr (h, b) \<Rightarrow> new_engine b md mb (empty_world\<lparr>pieces := h\<rparr>))"

text \<open>The weighted combination of the specification: the pair of rank \<open>r\<close> in the sorted
  list contributes its score times \<open>0.5 ^ r\<close>.\<close>

definition spec_weighted_sum :: "(real \<times> Move) list \<Rightarrow> real" where
  "spec_weighted_sum sorted_scores =
     sum_list (map (\<lambda>(r, (child_score, move)). child_score * (1 / 2) ^ r) (enumerate 0 sorted_scores))"




text \<open>Whether a move is a key of the children of the root.\<close>

definition is_child_key :: "Move \<Rightarrow> Engine \<Rightarrow> world \<Rightarrow> bool" where
  "is_child_key m e w =
     (case move_key m of
        Inl x \<Rightarrow> False
      | Inr k \<Rightarrow> map_of (children (node w (root e))) k \<noteq> None)"

text \<open>
  A root that is the only leaf of its tree and whose position has no move to enumerate
  (and so makes no copy of a piece): what \<^verbatim>\<open>prepare_children\<close> leaves behind at a mate or
  stalemate.
\<close>

definition terminal_root :: "nref \<Rightarrow> world \<Rightarrow> bool" where
  "terminal_root n w =
     (n < length (nodes w) \<and> parent (node w n) = None \<and>
      leaf_nodes (node w n) < length (sets w) \<and> leaves w n = [n] \<and> size (node w n) = 1 \<and>
      (case generate_legal_moves (pieces w) (board (node w n)) of
         Inl x \<Rightarrow> False
       | Inr (h, cs) \<Rightarrow> h = pieces w \<and> (case cs of [] \<Rightarrow> True | c # rest \<Rightarrow> False)))"


text \<open>The engine on the board of the two captures after \<^verbatim>\<open>build_tree\<close> with depth 1.\<close>

definition two_captures_tree :: "((error \<times> world \<times> Engine) + (world \<times> Engine)) option" where
  "two_captures_tree =
     (case engine_on two_captures (Finite 1) Infinite of
        Inl (x, w) \<Rightarrow> None
      | Inr (w, e) \<Rightarrow> build_tree e w)"

text \<open>Every reference on the board points into the store.\<close>

definition refs_ok :: "store \<Rightarrow> Board \<Rightarrow> bool" where
  "refs_ok h b = list_all (\<lambda>(k, r). r < length h) (position b)"

text \<open>
  How many squares of the board lie along a direction from a square of the board on,
  that square included: the bound on the rounds of a scan.
\<close>

definition steps_left :: "int \<times> int \<Rightarrow> Square \<Rightarrow> nat" where
  "steps_left d s =
     (if fst d > 0 then nat (8 - col s)
      else if fst d < 0 then nat (col s + 1)
      else if snd d > 0 then nat (8 - row s)
      else nat (row s + 1))"

definition nonzero :: "MovementVector \<Rightarrow> bool" where
  "nonzero v = (direction v \<noteq> (0, 0))"

text \<open>
  The store and board are well-formed: every vector of a piece and of a cache has a
  non-zero direction, and every reference on the board or in the reverse index points
  into the store.
\<close>

definition vectors_ok :: "store \<Rightarrow> bool" where
  "vectors_ok h =
     list_all (\<lambda>g. list_all nonzero (vectors (piece g)) \<and>
                    list_all (\<lambda>(k, v). nonzero v) (possible_squares g)) h"

definition rel_ok :: "nat \<Rightarrow> (pos \<times> ref list) list \<Rightarrow> bool" where
  "rel_ok n rel = list_all (\<lambda>(k, rs). list_all (\<lambda>r. r < n) rs) rel"

definition board_ok :: "store \<Rightarrow> Board \<Rightarrow> bool" where
  "board_ok h b = (vectors_ok h \<and> refs_ok h b \<and> rel_ok (length h) (relevant_piece_squares b))"

text \<open>An operation on a well-formed board did not run out of rounds, and what it
  returned is well-formed.\<close>

definition sound :: "(store \<times> Board) outcome \<Rightarrow> bool" where
  "sound x = (case x of Inl (e, h) \<Rightarrow> e \<noteq> Diverges | Inr (h, b) \<Rightarrow> board_ok h b)"

text \<open>
  The second store holds every object of the first, and each of them with the same
  identifier, piece and square: only caches may differ, and objects may have been added.
\<close>

definition same_but_cache :: "store \<Rightarrow> store \<Rightarrow> bool" where
  "same_but_cache h h' =
     (length h \<le> length h' \<and>
      list_all (\<lambda>r. uuid (h' ! r) = uuid (h ! r) \<and> piece (h' ! r) = piece (h ! r) \<and>
                     square (h' ! r) = square (h ! r)) [0..<length h])"

text \<open>The store that an operation leaves, whether it returned or raised.\<close>

definition final_store :: "(store \<times> Board) outcome \<Rightarrow> store" where
  "final_store x = (case x of Inl (e, h) \<Rightarrow> h | Inr (h, b) \<Rightarrow> h)"

text \<open>Between two boards the turn is the same and the tracker of the side that is not
  to move has the same paths.\<close>

definition tracker_kept :: "Board \<Rightarrow> Board \<Rightarrow> bool" where
  "tracker_kept b b' =
     (turn (state b') = turn (state b) \<and> next_turn (state b') = next_turn (state b) \<and>
      check_vectors (state b') (next_turn (state b)) = check_vectors (state b) (next_turn (state b)))"

section \<open>Results of operations\<close>


section \<open>Square names\<close>

lemma index_of_nth: "distinct xs \<Longrightarrow> n < length xs \<Longrightarrow> index_of xs (xs ! n) = n"
proof (induction xs arbitrary: n)
  case Nil
  then show ?case by simp
next
  case (Cons y ys)
  then show ?case by (cases n) auto
qed

lemma distinct_cols: "distinct cols"
  by (simp add: cols_def)

lemma distinct_rows: "distinct rows"
  by (simp add: rows_def)

lemma length_cols: "length cols = 8"
  by (simp add: cols_def)

lemma length_rows: "length rows = 8"
  by (simp add: rows_def)

lemma to_name_valid:
  assumes "is_valid s"
  shows "to_name s = Inr [cols ! nat (col s), rows ! nat (row s)]"
  using assms by (simp add: is_valid_def to_name_def get_position_def py_index_def)

lemma from_name_pair:
  assumes "i < 8" "j < 8"
  shows "from_name [cols ! i, rows ! j] = Inr (Square (int i) (int j))"
proof -
  have "cols ! i \<in> set cols" "rows ! j \<in> set rows"
    using assms by (simp_all add: length_cols length_rows)
  moreover have "index_of cols (cols ! i) = i" "index_of rows (rows ! j) = j"
    using assms by (simp_all add: index_of_nth distinct_cols distinct_rows length_cols length_rows)
  ultimately show ?thesis by (simp add: from_name_def)
qed

lemma from_name_to_name:
  assumes v: "is_valid s"
  shows "\<exists>n. to_name s = Inr n \<and> from_name n = Inr s"
proof -
  from v have b: "nat (col s) < 8" "nat (row s) < 8" "0 \<le> col s" "0 \<le> row s"
    by (auto simp add: is_valid_def length_cols length_rows)
  have "from_name [cols ! nat (col s), rows ! nat (row s)] =
          Inr (Square (int (nat (col s))) (int (nat (row s))))"
    using b by (intro from_name_pair)
  then show ?thesis using b v by (simp add: to_name_valid)
qed

lemma from_name_rejects:
  assumes "\<not> name_pattern n"
  shows "from_name n = Inl ValueError"
proof (cases n rule: name_pattern.cases)
  case (1 c r)
  with assms have "c \<notin> set cols \<or> r \<notin> set rows"
    by (simp only: name_pattern.simps cols_def rows_def de_Morgan_conj)
  with 1 show ?thesis by (simp add: from_name_def)
qed (simp_all add: from_name_def)

lemma from_name_accepts:
  assumes "name_pattern n"
  shows "\<exists>s. from_name n = Inr s"
proof (cases n rule: name_pattern.cases)
  case (1 c r)
  with assms have "c \<in> set cols \<and> r \<in> set rows"
    by (simp only: name_pattern.simps cols_def rows_def)
  with 1 show ?thesis by (simp add: from_name_def)
qed (use assms in simp_all)

lemma from_name_corners:
  "from_name ''a1'' = Inr (Square 0 0) \<and> from_name ''h8'' = Inr (Square 7 7)"
  using from_name_pair[of 0 0] from_name_pair[of 7 7] by (simp add: cols_def rows_def)

text \<open>
  Claim C9.  A valid square has a name, and \<open>from_name\<close> of that name is the square
  again; \<open>a1\<close> is file 0, rank 0 and \<open>h8\<close> is file 7, rank 7; \<open>from_name\<close> raises
  \<open>ValueError\<close> on every string that does not match \<^verbatim>\<open>[a-h][1-8]\<close>, and on no string that
  does.
\<close>

theorem Square_name_round_trip:
  "(is_valid s \<longrightarrow> (\<exists>n. to_name s = Inr n \<and> from_name n = Inr s)) \<and>
   from_name ''a1'' = Inr (Square 0 0) \<and> from_name ''h8'' = Inr (Square 7 7) \<and>
   (\<not> name_pattern bad \<longrightarrow> from_name bad = Inl ValueError) \<and>
   (name_pattern good \<longrightarrow> (\<exists>t. from_name good = Inr t))"
  using from_name_to_name[of s] from_name_rejects[of bad] from_name_accepts[of good]
    from_name_corners by blast

theorem Square_name_round_trip_witness:
  "is_valid (Square 4 1) \<and> \<not> name_pattern ''e9'' \<and> name_pattern ''e2'' \<and>
   (\<exists>n. to_name (Square 4 1) = Inr n \<and> from_name n = Inr (Square 4 1)) \<and>
   from_name ''e9'' = Inl ValueError \<and> (\<exists>t. from_name ''e2'' = Inr t)"
proof -
  have v: "is_valid (Square 4 1)"
    by (simp add: is_valid_def length_cols length_rows)
  have np: "\<not> name_pattern ''e9''" by simp
  have p: "name_pattern ''e2''" by simp
  from Square_name_round_trip[of "Square 4 1" "''e9''" "''e2''"] v np p
  have "(\<exists>n. to_name (Square 4 1) = Inr n \<and> from_name n = Inr (Square 4 1)) \<and>
        from_name ''e9'' = Inl ValueError \<and> (\<exists>t. from_name ''e2'' = Inr t)"
    by blast
  with v np p show ?thesis by blast
qed

section \<open>Material\<close>










lemma visit_store: "visit r v sq t h b = Inr (h', b', t') \<Longrightarrow> h' = h"
  by (auto simp: visit_def Let_def split: sum.splits option.splits if_splits)

lemma visit_position: "visit r v sq t h b = Inr (h', b', t') \<Longrightarrow> position b' = position b"
  by (auto simp: visit_def Let_def split: sum.splits option.splits if_splits)

lemma scan_frame:
  "scan n r v d sq t h b = Inr (h', b') \<Longrightarrow> length h' = length h \<and> position b' = position b"
proof (induction n arbitrary: d sq t h b)
  case 0
  then show ?case by (simp split: if_splits)
next
  case (Suc n)
  show ?case
  proof (cases "exceeds d (max_distance v) \<or> \<not> is_valid sq")
    case True
    with Suc.prems show ?thesis by (auto split: if_splits)
  next
    case False
    with Suc.prems obtain k h2 b2 t2 where
      vis: "visit r v sq t (h[r := (h ! r)\<lparr>possible_squares := dict_set (possible_squares (h ! r)) k v\<rparr>]) b = Inr (h2, b2, t2)" and
      rest: "scan n r v (d + 1) (apply_diff sq (direction v)) t2 h2 b2 = Inr (h', b')"
      by (auto simp: Let_def split: sum.splits)
    from Suc.IH[OF rest] visit_store[OF vis] visit_position[OF vis] show ?thesis by simp
  qed
qed

lemma scan_vectors_frame:
  "scan_vectors r vs h b = Inr (h', b') \<Longrightarrow> length h' = length h \<and> position b' = position b"
proof (induction vs arbitrary: h b)
  case Nil
  then show ?case by simp
next
  case (Cons v vs)
  from Cons.prems obtain h1 b1 where
    s: "scan 8 r v 1 (apply_diff (square (h ! r)) (direction v)) False h b = Inr (h1, b1)" and
    rest: "scan_vectors r vs h1 b1 = Inr (h', b')"
    by (auto split: sum.splits)
  from Cons.IH[OF rest] scan_frame[OF s] show ?case by simp
qed

lemma update_scan_frame:
  assumes "update_scan r m h b = Inr (h', b')"
  shows "length h' = length h \<and> position b' = position b"
proof (cases m)
  case EmptyMove
  with assms show ?thesis by (simp add: update_scan_def)
next
  case (Move st en)
  with assms obtain ps pe h1 b1 where
    first: "(case map_of (possible_squares (h ! r)) ps of None \<Rightarrow> Inr (h, b)
             | Some v \<Rightarrow> scan 8 r v 1 st False h b) = Inr (h1, b1)" and
    second: "(case map_of (possible_squares (h1 ! r)) pe of None \<Rightarrow> Inr (h1, b1)
             | Some v \<Rightarrow> scan 8 r v 1 en False h1 b1) = Inr (h', b')"
    by (auto simp: update_scan_def split: sum.splits)
  from first have "length h1 = length h \<and> position b1 = position b"
    by (auto split: option.splits dest: scan_frame)
  moreover from second have "length h' = length h1 \<and> position b' = position b1"
    by (auto split: option.splits dest: scan_frame)
  ultimately show ?thesis by simp
qed

lemma prepare_moves_frame:
  "prepare_moves r mo h b = Inr (h', b') \<Longrightarrow> length h' = length h \<and> position b' = position b"
  by (auto simp: prepare_moves_def split: option.splits
        dest: scan_vectors_frame update_scan_frame)


text \<open>What a successful \<open>make_move\<close> went through.\<close>

lemma make_move_steps:
  assumes "make_move (Move st en) h b = Inr (h', b')"
  obtains ps r0 pe b2 h3 b4 where
    "get_position st = Inr ps" "map_of (position b) ps = Some r0"
    "get_position en = Inr pe"
    "capture pe (h @ [h ! r0])
       (b\<lparr>available_moves := av_del (h @ [h ! r0]) (available_moves b) (length h) @ [(length h, [])],
          relevant_piece_squares :=
            fold (swap_in (h @ [h ! r0]) (length h))
              (map fst (possible_squares ((h @ [h ! r0]) ! length h)))
              (relevant_piece_squares b)\<rparr>) = Inr b2"
    "prepare_moves (length h) None
       ((h @ [h ! r0])[length h := gp_move ((h @ [h ! r0]) ! length h) en])
       (b2\<lparr>position := dict_del (dict_set (position b2) pe (length h)) ps,
           state := take_turn (state b2)\<rparr>) = Inr (h3, b4)"
    "prepare_all
       (dd_get (dd_update (relevant_piece_squares b4) ps (\<lambda>x. x)) ps) (Some (Move st en)) h3
       (b4\<lparr>relevant_piece_squares := dd_update (relevant_piece_squares b4) ps (\<lambda>x. x)\<rparr>) = Inr (h', b')"
  using assms
  by (auto simp: make_move_def deepcopy_def Let_def split: sum.splits option.splits if_splits)

lemma set_dict_set: "set (dict_set d k v) \<subseteq> insert (k, v) (set d)"
  by (induction d) (auto split: if_splits)

lemma set_dict_del: "set (dict_del d k) \<subseteq> set d"
  by (induction d) (auto split: if_splits)



lemma place_refs:
  "list_all (\<lambda>(k, r). r < length (fst (place layout))) (snd (place layout))"
  by (auto simp: place_def list_all_iff in_set_enumerate_eq)





section \<open>The scans never run out of rounds\<close>

text \<open>
  On a well-formed store and board (\<open>board_ok\<close>: non-zero directions, no dangling
  reference) no operation below returns \<open>Diverges\<close>, and what it returns is well-formed
  again.  Boards made by \<open>board_of\<close> are well-formed.
\<close>

lemma get_position_error: "get_position s = Inl e \<Longrightarrow> e = IndexError"
  by (auto simp: get_position_def py_index_def split: sum.splits if_splits)

lemma sq_eq_error: "sq_eq a b = Inl e \<Longrightarrow> e = IndexError"
  by (auto simp: sq_eq_def split: sum.splits dest: get_position_error)

lemma steps_left_pos: "is_valid s \<Longrightarrow> 0 < steps_left d s"
  by (auto simp: steps_left_def is_valid_def length_cols length_rows)

lemma steps_left_step:
  assumes "d \<noteq> (0, 0)" "is_valid s" "is_valid (apply_diff s d)"
  shows "steps_left d (apply_diff s d) < steps_left d s"
  using assms
  by (cases d) (auto simp: steps_left_def is_valid_def apply_diff_def length_cols length_rows)

lemma add_path_returns:
  assumes "nonzero v"
  shows "is_valid sq \<Longrightarrow> steps_left (direction v) sq \<le> n \<Longrightarrow>
         add_path n v king d sq path \<noteq> Inl Diverges"
proof (induction n arbitrary: sq d path)
  case 0
  with steps_left_pos[of sq "direction v"] show ?case by simp
next
  case (Suc n)
  show ?case
  proof (cases "is_valid (apply_diff sq (direction v))")
    case False
    then show ?thesis by (simp add: Let_def)
  next
    case True
    from steps_left_step[OF _ Suc.prems(1) True] assms Suc.prems(2)
    have "steps_left (direction v) (apply_diff sq (direction v)) \<le> n"
      by (simp add: nonzero_def)
    from Suc.IH[OF True this] show ?thesis
      by (auto simp: Let_def split: sum.splits bool.splits dest: sq_eq_error)
  qed
qed

lemma steps_left_le: "is_valid s \<Longrightarrow> steps_left d s \<le> 8"
  by (auto simp: steps_left_def is_valid_def length_cols length_rows)

lemma add_path_first:
  assumes "nonzero v" "8 \<le> n"
  shows "add_path (Suc n) v king d a path \<noteq> Inl Diverges"
proof (cases "is_valid (apply_diff a (direction v))")
  case False
  then show ?thesis by (simp add: Let_def)
next
  case True
  from steps_left_le[OF True, of "direction v"] assms(2)
  have "steps_left (direction v) (apply_diff a (direction v)) \<le> n" by simp
  from add_path_returns[OF assms(1) True this] show ?thesis
    by (auto simp: Let_def split: sum.splits bool.splits dest: sq_eq_error)
qed

lemma cv_add_returns:
  assumes "nonzero v"
  shows "cv_add cv a king v \<noteq> Inl Diverges"
proof -
  have nine: "(9::nat) = Suc 8" by simp
  have "add_path (Suc 8) v king 0 a [] \<noteq> Inl Diverges"
    using assms by (intro add_path_first) simp_all
  then show ?thesis
    unfolding cv_add_def nine by (auto split: sum.splits)
qed

lemma rel_ok_update:
  assumes "rel_ok n rel" "\<And>rs. list_all (\<lambda>r. r < n) rs \<Longrightarrow> list_all (\<lambda>r. r < n) (f rs)"
  shows "rel_ok n (dd_update rel k f)"
  using assms(1)
proof (induction rel)
  case Nil
  from assms(2)[of "[]"] show ?case by (simp add: rel_ok_def)
next
  case (Cons x rel)
  obtain k' rs where x: "x = (k', rs)" by (cases x)
  with Cons assms(2)[of rs] show ?case by (auto simp: rel_ok_def)
qed

lemma rel_ok_add: "rel_ok (length h) rel \<Longrightarrow> r < length h \<Longrightarrow> rel_ok (length h) (dd_update rel k (pset_add h r))"
  by (rule rel_ok_update) (auto simp: pset_add_def)

lemma rel_ok_discard: "rel_ok (length h) rel \<Longrightarrow> rel_ok (length h) (dd_update rel k (pset_discard h r))"
  by (rule rel_ok_update) (auto simp: pset_discard_def list_all_iff)

lemma visit_sound:
  assumes ok: "board_ok h b" and nz: "nonzero v" and r: "r < length h"
  shows "(case visit r v sq t h b of
            Inl (e, h') \<Rightarrow> e \<noteq> Diverges
          | Inr (h', b', t') \<Rightarrow> board_ok h' b')"
proof (cases "visit r v sq t h b")
  case (Inl x)
  obtain e h' where x: "x = (e, h')" by (cases x)
  from Inl x have "e \<noteq> Diverges"
    using cv_add_returns[OF nz]
    by (auto simp: visit_def Let_def split: sum.splits option.splits if_splits
          dest: get_position_error)
  with Inl x show ?thesis by simp
next
  case (Inr y)
  obtain h' b' t' where y: "y = (h', b', t')" by (cases y)
  from Inr y have h': "h' = h" and p: "position b' = position b"
    by (auto dest: visit_store visit_position)
  from ok r have a: "\<And>k. rel_ok (length h) (dd_update (relevant_piece_squares b) k (pset_add h r))"
    and d: "\<And>k. rel_ok (length h) (dd_update (relevant_piece_squares b) k (pset_discard h r))"
    by (auto simp: board_ok_def intro: rel_ok_add rel_ok_discard)
  from Inr y a d have "rel_ok (length h) (relevant_piece_squares b')"
    by (auto simp: visit_def Let_def split: sum.splits option.splits if_splits)
  with ok h' p Inr y show ?thesis by (simp add: board_ok_def refs_ok_def)
qed

lemma sound_Inr: "sound (Inr (h, b)) = board_ok h b"
  by (simp add: sound_def)

lemma sound_Inl: "sound (Inl (e, h)) = (e \<noteq> Diverges)"
  by (simp add: sound_def)

lemma vectors_ok_nth:
  "vectors_ok h \<Longrightarrow> r < length h \<Longrightarrow>
   list_all nonzero (vectors (piece (h ! r))) \<and>
   list_all (\<lambda>(k, v). nonzero v) (possible_squares (h ! r))"
  by (simp add: vectors_ok_def list_all_length)

lemma vectors_ok_update:
  assumes "vectors_ok h"
    and "list_all nonzero (vectors (piece g))"
    and "list_all (\<lambda>(k, v). nonzero v) (possible_squares g)"
  shows "vectors_ok (h[r := g])"
proof -
  define P :: "GamePiece \<Rightarrow> bool" where "P = (\<lambda>g. list_all nonzero (vectors (piece g)) \<and>
                           list_all (\<lambda>(k, v). nonzero v) (possible_squares g))"
  have sub: "set (h[r := g]) \<subseteq> insert g (set h)" by (rule set_update_subset_insert)
  from assms have "\<forall>x\<in>insert g (set h). P x"
    by (simp add: vectors_ok_def list_all_iff P_def)
  with sub have "\<forall>x\<in>set (h[r := g]). P x" by blast
  then show ?thesis by (simp add: vectors_ok_def list_all_iff P_def)
qed

lemma vectors_ok_cache:
  assumes "vectors_ok h" "r < length h" "nonzero v"
  shows "vectors_ok (h[r := (h ! r)\<lparr>possible_squares := dict_set (possible_squares (h ! r)) k v\<rparr>])"
proof (rule vectors_ok_update[OF assms(1)])
  from vectors_ok_nth[OF assms(1,2)]
  show "list_all nonzero (vectors (piece ((h ! r)\<lparr>possible_squares := dict_set (possible_squares (h ! r)) k v\<rparr>)))"
    by simp
  have "set (dict_set (possible_squares (h ! r)) k v) \<subseteq> insert (k, v) (set (possible_squares (h ! r)))"
    by (rule set_dict_set)
  with vectors_ok_nth[OF assms(1,2)] assms(3)
  show "list_all (\<lambda>(k, v). nonzero v)
          (possible_squares ((h ! r)\<lparr>possible_squares := dict_set (possible_squares (h ! r)) k v\<rparr>))"
    by (auto simp: list_all_iff)
qed

lemma scan_sound:
  assumes nz: "nonzero v"
  shows "board_ok h b \<Longrightarrow> r < length h \<Longrightarrow>
         (is_valid sq \<longrightarrow> steps_left (direction v) sq \<le> n) \<Longrightarrow>
         sound (scan n r v d sq t h b)"
proof (induction n arbitrary: d sq t h b)
  case 0
  with steps_left_pos[of sq "direction v"] show ?case
    by (auto simp: sound_Inr)
next
  case (Suc n)
  show ?case
  proof (cases "exceeds d (max_distance v) \<or> \<not> is_valid sq")
    case True
    with Suc.prems(1) show ?thesis by (auto simp: sound_Inr)
  next
    case False
    then have valid: "is_valid sq" and ex: "\<not> exceeds d (max_distance v)" by simp_all
    show ?thesis
    proof (cases "get_position sq")
      case (Inl e)
      with False get_position_error[OF Inl] show ?thesis by (simp add: sound_Inl)
    next
      case (Inr k)
      define h1 where "h1 = h[r := (h ! r)\<lparr>possible_squares := dict_set (possible_squares (h ! r)) k v\<rparr>]"
      have len: "length h1 = length h" by (simp add: h1_def)
      from Suc.prems(1,2) nz have ok1: "board_ok h1 b"
        unfolding board_ok_def h1_def
        by (auto simp: refs_ok_def intro: vectors_ok_cache)
      from Suc.prems(2) len have r1: "r < length h1" by simp
      note vs = visit_sound[OF ok1 nz r1, of sq t]
      show ?thesis
      proof (cases "visit r v sq t h1 b")
        case (Inl x)
        with vs ex valid Inr show ?thesis
          by (auto simp: Let_def h1_def[symmetric] sound_Inl)
      next
        case vr: (Inr y)
        obtain h2 b2 t2 where y: "y = (h2, b2, t2)" by (cases y)
        from vs vr y have ok2: "board_ok h2 b2" by simp
        from vr y visit_store have "h2 = h1" by blast
        with r1 have r2: "r < length h2" by simp
        have bound: "is_valid (apply_diff sq (direction v)) \<longrightarrow>
                     steps_left (direction v) (apply_diff sq (direction v)) \<le> n"
        proof
          assume nv: "is_valid (apply_diff sq (direction v))"
          from steps_left_step[OF _ valid nv] nz Suc.prems(3) valid
          show "steps_left (direction v) (apply_diff sq (direction v)) \<le> n"
            by (simp add: nonzero_def)
        qed
        from Suc.IH[OF ok2 r2 bound, of "d + 1" t2] ex valid Inr vr y
        show ?thesis by (simp add: Let_def h1_def[symmetric])
      qed
    qed
  qed
qed

lemma scan8_sound:
  assumes "nonzero v" "board_ok h b" "r < length h"
  shows "sound (scan 8 r v d sq t h b)"
  using scan_sound[OF assms] steps_left_le[of sq "direction v"] by blast

lemma scan_vectors_sound:
  "board_ok h b \<Longrightarrow> r < length h \<Longrightarrow> list_all nonzero vs \<Longrightarrow> sound (scan_vectors r vs h b)"
proof (induction vs arbitrary: h b)
  case Nil
  then show ?case by (simp add: sound_Inr)
next
  case (Cons v vs)
  from Cons.prems have nz: "nonzero v" and rest: "list_all nonzero vs" by simp_all
  note s = scan8_sound[OF nz Cons.prems(1,2), of 1 "apply_diff (square (h ! r)) (direction v)" False]
  show ?case
  proof (cases "scan 8 r v 1 (apply_diff (square (h ! r)) (direction v)) False h b")
    case (Inl x)
    with s show ?thesis by (cases x) (simp add: sound_def)
  next
    case (Inr y)
    obtain h1 b1 where y: "y = (h1, b1)" by (cases y)
    from s Inr y have ok1: "board_ok h1 b1" by (simp add: sound_Inr)
    from scan_frame Inr y Cons.prems(2) have r1: "r < length h1" by fastforce
    from Cons.IH[OF ok1 r1 rest] Inr y show ?thesis by simp
  qed
qed

lemma cached_nonzero:
  assumes "vectors_ok h" "r < length h" "map_of (possible_squares (h ! r)) k = Some v"
  shows "nonzero v"
proof -
  from assms(3) have "(k, v) \<in> set (possible_squares (h ! r))" by (rule map_of_SomeD)
  with vectors_ok_nth[OF assms(1,2)] show ?thesis by (auto simp: list_all_iff)
qed

lemma rescan_sound:
  assumes "board_ok h b" "r < length h"
  shows "sound (case map_of (possible_squares (h ! r)) k of
                  None \<Rightarrow> Inr (h, b)
                | Some v \<Rightarrow> scan 8 r v 1 sq False h b)"
proof (cases "map_of (possible_squares (h ! r)) k")
  case None
  with assms show ?thesis by (simp add: sound_Inr)
next
  case (Some v)
  from assms(1) have "vectors_ok h" by (simp add: board_ok_def)
  from cached_nonzero[OF this assms(2) Some] have "nonzero v" .
  from scan8_sound[OF this assms] Some show ?thesis by simp
qed

lemma update_scan_sound:
  assumes ok: "board_ok h b" and r: "r < length h"
  shows "sound (update_scan r m h b)"
proof (cases m)
  case EmptyMove
  then show ?thesis by (simp add: update_scan_def sound_Inl)
next
  case (Move st en)
  show ?thesis
  proof (cases "get_position st")
    case (Inl e)
    with Move get_position_error[OF Inl] show ?thesis by (simp add: update_scan_def sound_Inl)
  next
    case (Inr ps)
    note first = rescan_sound[OF ok r, where k = ps and sq = st]
    show ?thesis
    proof (cases "case map_of (possible_squares (h ! r)) ps of
                    None \<Rightarrow> Inr (h, b) | Some v \<Rightarrow> scan 8 r v 1 st False h b")
      case (Inl x)
      with first Move Inr show ?thesis by (cases x) (simp add: update_scan_def sound_def)
    next
      case fr: (Inr y)
      obtain h1 b1 where y: "y = (h1, b1)" by (cases y)
      from first fr y have ok1: "board_ok h1 b1" by (simp add: sound_Inr)
      from fr y have "length h1 = length h"
        by (auto split: option.splits dest: scan_frame)
      with r have r1: "r < length h1" by simp
      show ?thesis
      proof (cases "get_position en")
        case (Inl e)
        with Move Inr fr y get_position_error[OF Inl] show ?thesis
          by (simp add: update_scan_def sound_Inl)
      next
        case pe: (Inr pe)
        from rescan_sound[OF ok1 r1, where k = pe and sq = en] Move Inr fr y pe show ?thesis
          by (simp add: update_scan_def)
      qed
    qed
  qed
qed

lemma prepare_moves_sound:
  assumes "board_ok h b" "r < length h"
  shows "sound (prepare_moves r mo h b)"
proof (cases mo)
  case None
  from assms have "list_all nonzero (vectors (piece (h ! r)))"
    by (simp add: board_ok_def vectors_ok_nth)
  from scan_vectors_sound[OF assms this] None show ?thesis by (simp add: prepare_moves_def)
next
  case (Some m)
  with update_scan_sound[OF assms] show ?thesis by (simp add: prepare_moves_def)
qed

lemma prepare_all_sound:
  "board_ok h b \<Longrightarrow> list_all (\<lambda>r. r < length h) rs \<Longrightarrow> sound (prepare_all rs mo h b)"
proof (induction rs arbitrary: h b)
  case Nil
  then show ?case by (simp add: sound_Inr)
next
  case (Cons r rs)
  from Cons.prems have r: "r < length h" and rest: "list_all (\<lambda>r. r < length h) rs" by simp_all
  note s = prepare_moves_sound[OF Cons.prems(1) r, of mo]
  show ?case
  proof (cases "prepare_moves r mo h b")
    case (Inl x)
    with s show ?thesis by (cases x) (simp add: sound_def)
  next
    case (Inr y)
    obtain h1 b1 where y: "y = (h1, b1)" by (cases y)
    from s Inr y have ok1: "board_ok h1 b1" by (simp add: sound_Inr)
    from prepare_moves_frame Inr y have "length h1 = length h" by fastforce
    with rest have rest1: "list_all (\<lambda>r. r < length h1) rs" by simp
    from Cons.IH[OF ok1 rest1] Inr y show ?thesis by simp
  qed
qed

lemma rel_ok_mono: "rel_ok n rel \<Longrightarrow> n \<le> m \<Longrightarrow> rel_ok m rel"
  by (fastforce simp: rel_ok_def list_all_iff)

lemma rel_ok_get:
  assumes "rel_ok n rel"
  shows "list_all (\<lambda>r. r < n) (dd_get rel k)"
proof (cases "map_of rel k")
  case None
  then show ?thesis by (simp add: dd_get_def)
next
  case (Some rs)
  then have "(k, rs) \<in> set rel" by (rule map_of_SomeD)
  with assms have "list_all (\<lambda>r. r < n) rs" by (auto simp: rel_ok_def list_all_iff)
  with Some show ?thesis by (simp add: dd_get_def)
qed

lemma swap_in_ok:
  assumes "rel_ok (length h) rel" "mp < length h"
  shows "rel_ok (length h) (swap_in h mp k rel)"
  unfolding swap_in_def using assms
  by (intro rel_ok_update) (auto simp: pset_add_def pset_discard_def list_all_iff)

lemma fold_swap_in_ok:
  "rel_ok (length h) rel \<Longrightarrow> mp < length h \<Longrightarrow> rel_ok (length h) (fold (swap_in h mp) ks rel)"
  by (induction ks arbitrary: rel) (simp_all add: swap_in_ok)

lemma fold_discard_ok:
  "rel_ok (length h) rel \<Longrightarrow>
   rel_ok (length h) (fold (\<lambda>k rel. dd_update rel k (pset_discard h cr)) ks rel)"
  by (induction ks arbitrary: rel) (simp_all add: rel_ok_discard)

lemma capture_sound:
  assumes "rel_ok (length h) (relevant_piece_squares b)"
  shows "(case capture pe h b of
            Inl (e, h') \<Rightarrow> e = KeyError
          | Inr b2 \<Rightarrow> rel_ok (length h) (relevant_piece_squares b2) \<and> position b2 = position b)"
  using assms
  by (auto simp: capture_def Let_def fold_discard_ok split: option.splits)

lemma piece_move_nonzero:
  "list_all nonzero (vectors p) \<Longrightarrow> list_all nonzero (vectors (piece_move p))"
  by (auto simp: piece_move_def Let_def nonzero_def split: list.splits)

lemma type_vectors_nonzero: "list_all nonzero (type_vectors t c)"
  by (cases t)
    (simp_all add: nonzero_def pawn_vectors_def knight_vectors_def bishop_vectors_def
       rook_vectors_def queen_vectors_def king_vectors_def mk_vector_def Let_def)

lemma vectors_ok_append:
  assumes "vectors_ok h" "r < length h"
  shows "vectors_ok (h @ [h ! r])"
proof -
  from assms(2) have "h ! r \<in> set h" by (rule nth_mem)
  with assms(1) show ?thesis by (simp add: vectors_ok_def list_all_iff)
qed

lemma make_move_sound:
  assumes ok: "board_ok h b"
  shows "sound (make_move m h b)"
proof (cases m)
  case EmptyMove
  then show ?thesis by (simp add: make_move_def sound_Inl)
next
  case (Move st en)
  show ?thesis
  proof (cases "get_position st")
    case (Inl e)
    with Move get_position_error[OF Inl] show ?thesis by (simp add: make_move_def sound_Inl)
  next
    case ps: (Inr ps)
    show ?thesis
    proof (cases "map_of (position b) ps")
      case None
      with Move ps show ?thesis by (simp add: make_move_def sound_Inl)
    next
      case (Some r0)
      then have "(ps, r0) \<in> set (position b)" by (rule map_of_SomeD)
      with ok have r0: "r0 < length h" by (auto simp: board_ok_def refs_ok_def list_all_iff)
      define h1 where "h1 = h @ [h ! r0]"
      define mp where "mp = length h"
      define b1 where "b1 = b\<lparr>available_moves := av_del h1 (available_moves b) mp @ [(mp, [])],
        relevant_piece_squares := fold (swap_in h1 mp) (map fst (possible_squares (h1 ! mp)))
          (relevant_piece_squares b)\<rparr>"
      have len1: "length h1 = length h + 1" and mp1: "mp < length h1"
        by (simp_all add: h1_def mp_def)
      from ok r0 have v1: "vectors_ok h1"
        by (simp add: board_ok_def h1_def vectors_ok_append)
      from ok have "rel_ok (length h1) (relevant_piece_squares b)"
        by (auto simp: board_ok_def len1 intro: rel_ok_mono)
      from fold_swap_in_ok[OF this mp1]
      have rel1: "rel_ok (length h1) (relevant_piece_squares b1)" by (simp add: b1_def)
      have pos1: "position b1 = position b" by (simp add: b1_def)
      have start: "make_move m h b =
        (case av_find h1 (available_moves b) mp of
           None \<Rightarrow> Inl (KeyError, h1)
         | Some x \<Rightarrow>
             if color (piece (h1 ! mp)) \<noteq> turn (state b1) then Inl (ValueError, h1)
             else (case get_position en of
                     Inl e \<Rightarrow> Inl (e, h1)
                   | Inr pe \<Rightarrow>
                       (case capture pe h1 b1 of
                          Inl x \<Rightarrow> Inl x
                        | Inr b2 \<Rightarrow>
                            (case prepare_moves mp None (h1[mp := gp_move (h1 ! mp) en])
                                    (b2\<lparr>position := dict_del (dict_set (position b2) pe mp) ps,
                                        state := take_turn (state b2)\<rparr>) of
                               Inl x \<Rightarrow> Inl x
                             | Inr (h3, b4) \<Rightarrow>
                                 prepare_all
                                   (dd_get (relevant_piece_squares
                                      (b4\<lparr>relevant_piece_squares :=
                                           dd_update (relevant_piece_squares b4) ps (\<lambda>x. x)\<rparr>)) ps)
                                   (Some m) h3
                                   (b4\<lparr>relevant_piece_squares :=
                                        dd_update (relevant_piece_squares b4) ps (\<lambda>x. x)\<rparr>)))))"
        unfolding make_move_def deepcopy_def Let_def h1_def mp_def b1_def
        using Move ps Some by simp
      show ?thesis
      proof (cases "av_find h1 (available_moves b) mp")
        case None
        with start show ?thesis by (simp add: sound_Inl)
      next
        case av: (Some x)
        show ?thesis
        proof (cases "color (piece (h1 ! mp)) \<noteq> turn (state b1)")
          case True
          with start av show ?thesis by (simp add: sound_Inl)
        next
          case turn_ok: False
          show ?thesis
          proof (cases "get_position en")
            case (Inl e)
            with start av turn_ok get_position_error[OF Inl] show ?thesis
              by (simp add: sound_Inl)
          next
            case pe: (Inr pe)
            note cs = capture_sound[OF rel1, of pe]
            show ?thesis
            proof (cases "capture pe h1 b1")
              case (Inl x)
              with cs start av turn_ok pe show ?thesis by (cases x) (simp add: sound_def)
            next
              case cap: (Inr b2)
              with cs have rel2: "rel_ok (length h1) (relevant_piece_squares b2)"
                and pos2: "position b2 = position b" by (simp_all add: pos1)
              define h2 where "h2 = h1[mp := gp_move (h1 ! mp) en]"
              define b3 where "b3 = b2\<lparr>position := dict_del (dict_set (position b2) pe mp) ps,
                                        state := take_turn (state b2)\<rparr>"
              have len2: "length h2 = length h1" by (simp add: h2_def)
              have v2: "vectors_ok h2"
                unfolding h2_def
                using vectors_ok_nth[OF v1 mp1]
                by (intro vectors_ok_update[OF v1]) (simp_all add: gp_move_def piece_move_nonzero)
              have refs3: "refs_ok h2 b3"
              proof -
                have "set (position b3) \<subseteq> insert (pe, mp) (set (position b))"
                  using set_dict_del[of "dict_set (position b) pe mp" ps]
                    set_dict_set[of "position b" pe mp] by (auto simp: b3_def pos2)
                moreover from ok have "\<forall>(k, r)\<in>set (position b). r < length h"
                  by (simp add: board_ok_def refs_ok_def list_all_iff)
                ultimately show ?thesis
                  using mp1 len1 len2 by (fastforce simp: refs_ok_def list_all_iff)
              qed
              from v2 refs3 rel2 have ok3: "board_ok h2 b3"
                by (simp add: board_ok_def len2 b3_def)
              from mp1 len2 have mp2: "mp < length h2" by simp
              note ps3 = prepare_moves_sound[OF ok3 mp2, of None]
              show ?thesis
              proof (cases "prepare_moves mp None h2 b3")
                case (Inl x)
                with ps3 start av turn_ok pe cap show ?thesis
                  by (cases x) (simp add: sound_def h2_def b3_def)
              next
                case pr: (Inr y)
                obtain h3 b4 where y: "y = (h3, b4)" by (cases y)
                from ps3 pr y have ok4: "board_ok h3 b4" by (simp add: sound_Inr)
                define b5 where "b5 = b4\<lparr>relevant_piece_squares :=
                    dd_update (relevant_piece_squares b4) ps (\<lambda>x. x)\<rparr>"
                from ok4 have rel5: "rel_ok (length h3) (relevant_piece_squares b5)"
                  unfolding b5_def board_ok_def by (auto intro: rel_ok_update)
                with ok4 have ok5: "board_ok h3 b5"
                  by (simp add: board_ok_def refs_ok_def b5_def)
                from rel_ok_get[OF rel5]
                have "list_all (\<lambda>r. r < length h3) (dd_get (relevant_piece_squares b5) ps)" .
                from prepare_all_sound[OF ok5 this, of "Some m"] start av turn_ok pe cap pr y
                show ?thesis by (simp add: h2_def b3_def b5_def)
              qed
            qed
          qed
        qed
      qed
    qed
  qed
qed

lemma make_child_sound:
  assumes "board_ok h b"
  shows "sound (make_child m h b)"
proof (cases "kl_move (king_squares (state b)) m")
  case (Inl e)
  then have "e \<noteq> Diverges"
    by (auto simp: kl_move_def split: Move.splits sum.splits if_splits dest: sq_eq_error)
  with Inl show ?thesis by (simp add: make_child_def sound_Inl)
next
  case (Inr ks)
  from assms have "board_ok h
      \<lparr>state = new_state m (turn (state b)) (material (state b))
                 (check_vectors (state b) (turn (state b))) ks,
       position = position b, relevant_piece_squares = relevant_piece_squares b,
       available_moves = available_moves b\<rparr>"
    by (simp add: board_ok_def refs_ok_def)
  from make_move_sound[OF this] Inr show ?thesis by (simp add: make_child_def)
qed

lemma place_ok: "vectors_ok (fst (place layout))"
  using type_vectors_nonzero
  by (auto simp: place_def vectors_ok_def list_all_iff new_piece_def)

lemma board_of_sound: "sound (board_of layout s)"
proof -
  have "board_ok (fst (place layout))
          \<lparr>state = s, position = snd (place layout), relevant_piece_squares = [],
           available_moves = []\<rparr>"
    using place_ok[of layout] place_refs[of layout]
    by (simp add: board_ok_def refs_ok_def rel_ok_def)
  moreover have "list_all (\<lambda>r. r < length (fst (place layout))) (map snd (snd (place layout)))"
    using place_refs[of layout] by (auto simp: list_all_iff)
  ultimately show ?thesis
    unfolding board_of_def rebuild_def
    by (intro prepare_all_sound) (simp_all add: board_ok_def refs_ok_def)
qed


section \<open>What a child leaves of its parent\<close>

lemma same_but_cache_iff:
  "same_but_cache h h' \<longleftrightarrow>
     length h \<le> length h' \<and>
     (\<forall>r<length h. uuid (h' ! r) = uuid (h ! r) \<and> piece (h' ! r) = piece (h ! r) \<and>
                     square (h' ! r) = square (h ! r))"
  by (auto simp: same_but_cache_def list_all_iff)

lemma same_but_cache_refl: "same_but_cache h h"
  by (simp add: same_but_cache_iff)

lemma same_but_cache_trans:
  "same_but_cache h h1 \<Longrightarrow> same_but_cache h1 h2 \<Longrightarrow> same_but_cache h h2"
  by (auto simp: same_but_cache_iff)

lemma same_but_cache_write:
  "same_but_cache h (h[r := (h ! r)\<lparr>possible_squares := c\<rparr>])"
proof -
  have "uuid (h[r := (h ! r)\<lparr>possible_squares := c\<rparr>] ! i) = uuid (h ! i) \<and>
        piece (h[r := (h ! r)\<lparr>possible_squares := c\<rparr>] ! i) = piece (h ! i) \<and>
        square (h[r := (h ! r)\<lparr>possible_squares := c\<rparr>] ! i) = square (h ! i)"
    if "i < length h" for i
    using that by (cases "r = i") simp_all
  then show ?thesis by (simp add: same_but_cache_iff)
qed

lemma final_store_Inr: "final_store (Inr (h, b)) = h"
  by (simp add: final_store_def)

lemma final_store_Inl: "final_store (Inl (e, h)) = h"
  by (simp add: final_store_def)

lemma visit_error_store: "visit r v sq t h b = Inl (e, h') \<Longrightarrow> h' = h"
  by (auto simp: visit_def Let_def split: sum.splits option.splits if_splits)

lemma scan_cells: "same_but_cache h (final_store (scan n r v d sq t h b))"
proof (induction n arbitrary: d sq t h b)
  case 0
  show ?case by (simp add: final_store_def same_but_cache_refl)
next
  case (Suc n)
  show ?case
  proof (cases "exceeds d (max_distance v) \<or> \<not> is_valid sq")
    case True
    then show ?thesis by (auto simp: final_store_Inr same_but_cache_refl)
  next
    case False
    show ?thesis
    proof (cases "get_position sq")
      case (Inl e)
      with False show ?thesis by (simp add: final_store_Inl same_but_cache_refl)
    next
      case (Inr k)
      define h1 where "h1 = h[r := (h ! r)\<lparr>possible_squares := dict_set (possible_squares (h ! r)) k v\<rparr>]"
      have s1: "same_but_cache h h1" unfolding h1_def by (rule same_but_cache_write)
      show ?thesis
      proof (cases "visit r v sq t h1 b")
        case (Inl x)
        obtain e h' where x: "x = (e, h')" by (cases x)
        with Inl visit_error_store have "h' = h1" by blast
        with False Inr Inl x s1 show ?thesis
          by (simp add: Let_def h1_def[symmetric] final_store_Inl)
      next
        case vr: (Inr y)
        obtain h2 b2 t2 where y: "y = (h2, b2, t2)" by (cases y)
        with vr visit_store have "h2 = h1" by blast
        with Suc.IH[of h2 "d + 1" "apply_diff sq (direction v)" t2 b2] s1
        have "same_but_cache h
                (final_store (scan n r v (d + 1) (apply_diff sq (direction v)) t2 h2 b2))"
          by (auto intro: same_but_cache_trans)
        with False Inr vr y show ?thesis by (simp add: Let_def h1_def[symmetric])
      qed
    qed
  qed
qed

lemma chain_cells:
  assumes first: "same_but_cache h (final_store x)"
    and rest: "\<And>h1 b1. x = Inr (h1, b1) \<Longrightarrow> same_but_cache h1 (final_store (f h1 b1))"
  shows "same_but_cache h (final_store (case x of Inl e \<Rightarrow> Inl e | Inr (h1, b1) \<Rightarrow> f h1 b1))"
proof (cases x)
  case (Inl e)
  with first show ?thesis by simp
next
  case (Inr y)
  obtain h1 b1 where y: "y = (h1, b1)" by (cases y)
  from first Inr y have "same_but_cache h h1" by (simp add: final_store_Inr)
  with rest[OF Inr[unfolded y]] Inr y show ?thesis
    by (auto intro: same_but_cache_trans)
qed

lemma scan_vectors_cells: "same_but_cache h (final_store (scan_vectors r vs h b))"
proof (induction vs arbitrary: h b)
  case Nil
  show ?case by (simp add: final_store_Inr same_but_cache_refl)
next
  case (Cons v vs)
  show ?case
    unfolding scan_vectors.simps
    by (rule chain_cells[OF scan_cells]) (rule Cons.IH)
qed

lemma rescan_cells:
  "same_but_cache h (final_store (case map_of (possible_squares (h ! r)) k of
                                    None \<Rightarrow> Inr (h, b)
                                  | Some v \<Rightarrow> scan 8 r v 1 sq False h b))"
  by (cases "map_of (possible_squares (h ! r)) k")
    (simp_all add: final_store_Inr same_but_cache_refl scan_cells)

lemma update_scan_cells: "same_but_cache h (final_store (update_scan r m h b))"
proof (cases m)
  case EmptyMove
  then show ?thesis by (simp add: update_scan_def final_store_Inl same_but_cache_refl)
next
  case (Move st en)
  show ?thesis
  proof (cases "get_position st")
    case (Inl e)
    with Move show ?thesis by (simp add: update_scan_def final_store_Inl same_but_cache_refl)
  next
    case (Inr ps)
    have "same_but_cache h (final_store
        (case (case map_of (possible_squares (h ! r)) ps of
                 None \<Rightarrow> Inr (h, b) | Some v \<Rightarrow> scan 8 r v 1 st False h b) of
           Inl x \<Rightarrow> Inl x
         | Inr (h1, b1) \<Rightarrow>
             (case get_position en of
                Inl e \<Rightarrow> Inl (e, h1)
              | Inr pe \<Rightarrow>
                  (case map_of (possible_squares (h1 ! r)) pe of
                     None \<Rightarrow> Inr (h1, b1)
                   | Some v \<Rightarrow> scan 8 r v 1 en False h1 b1))))"
    proof (rule chain_cells[OF rescan_cells])
      fix h1 b1
      show "same_but_cache h1 (final_store
          (case get_position en of
             Inl e \<Rightarrow> Inl (e, h1)
           | Inr pe \<Rightarrow>
               (case map_of (possible_squares (h1 ! r)) pe of
                  None \<Rightarrow> Inr (h1, b1)
                | Some v \<Rightarrow> scan 8 r v 1 en False h1 b1)))"
        by (cases "get_position en")
          (simp_all add: final_store_Inl same_but_cache_refl rescan_cells)
    qed
    with Move Inr show ?thesis by (simp add: update_scan_def)
  qed
qed

lemma prepare_moves_cells: "same_but_cache h (final_store (prepare_moves r mo h b))"
  by (cases mo) (simp_all add: prepare_moves_def scan_vectors_cells update_scan_cells)

lemma prepare_all_cells: "same_but_cache h (final_store (prepare_all rs mo h b))"
proof (induction rs arbitrary: h b)
  case Nil
  show ?case by (simp add: final_store_Inr same_but_cache_refl)
next
  case (Cons r rs)
  show ?case
    unfolding prepare_all.simps
    by (rule chain_cells[OF prepare_moves_cells]) (rule Cons.IH)
qed

lemma same_but_cache_new:
  "same_but_cache h ((h @ [x])[length h := y])"
  by (simp add: same_but_cache_iff nth_append nth_list_update)

lemma capture_error_store: "capture pe h b = Inl (e, h') \<Longrightarrow> h' = h"
  by (auto simp: capture_def Let_def split: option.splits)

lemma make_move_unfold:
  assumes "get_position st = Inr ps" "map_of (position b) ps = Some r0"
  shows "make_move (Move st en) h b =
    (case av_find (h @ [h ! r0]) (available_moves b) (length h) of
       None \<Rightarrow> Inl (KeyError, h @ [h ! r0])
     | Some x \<Rightarrow>
         if color (piece ((h @ [h ! r0]) ! length h)) \<noteq>
            turn (state (b\<lparr>available_moves :=
                              av_del (h @ [h ! r0]) (available_moves b) (length h) @ [(length h, [])],
                            relevant_piece_squares :=
                              fold (swap_in (h @ [h ! r0]) (length h))
                                (map fst (possible_squares ((h @ [h ! r0]) ! length h)))
                                (relevant_piece_squares b)\<rparr>))
         then Inl (ValueError, h @ [h ! r0])
         else (case get_position en of
                 Inl e \<Rightarrow> Inl (e, h @ [h ! r0])
               | Inr pe \<Rightarrow>
                   (case capture pe (h @ [h ! r0])
                           (b\<lparr>available_moves :=
                                av_del (h @ [h ! r0]) (available_moves b) (length h) @ [(length h, [])],
                              relevant_piece_squares :=
                                fold (swap_in (h @ [h ! r0]) (length h))
                                  (map fst (possible_squares ((h @ [h ! r0]) ! length h)))
                                  (relevant_piece_squares b)\<rparr>) of
                      Inl x \<Rightarrow> Inl x
                    | Inr b2 \<Rightarrow>
                        (case prepare_moves (length h) None
                                ((h @ [h ! r0])[length h := gp_move ((h @ [h ! r0]) ! length h) en])
                                (b2\<lparr>position := dict_del (dict_set (position b2) pe (length h)) ps,
                                    state := take_turn (state b2)\<rparr>) of
                           Inl x \<Rightarrow> Inl x
                         | Inr (h3, b4) \<Rightarrow>
                             prepare_all
                               (dd_get (relevant_piece_squares
                                  (b4\<lparr>relevant_piece_squares :=
                                       dd_update (relevant_piece_squares b4) ps (\<lambda>x. x)\<rparr>)) ps)
                               (Some (Move st en)) h3
                               (b4\<lparr>relevant_piece_squares :=
                                    dd_update (relevant_piece_squares b4) ps (\<lambda>x. x)\<rparr>)))))"
  unfolding make_move_def deepcopy_def Let_def using assms by simp

lemma make_move_cells: "same_but_cache h (final_store (make_move m h b))"
proof (cases m)
  case EmptyMove
  then show ?thesis by (simp add: make_move_def final_store_Inl same_but_cache_refl)
next
  case (Move st en)
  show ?thesis
  proof (cases "get_position st")
    case (Inl e)
    with Move show ?thesis by (simp add: make_move_def final_store_Inl same_but_cache_refl)
  next
    case ps: (Inr ps)
    show ?thesis
    proof (cases "map_of (position b) ps")
      case None
      with Move ps show ?thesis by (simp add: make_move_def final_store_Inl same_but_cache_refl)
    next
      case (Some r0)
      define h1 where "h1 = h @ [h ! r0]"
      define h2 where "h2 = h1[length h := gp_move (h1 ! length h) en]"
      have s1: "same_but_cache h h1" by (simp add: h1_def same_but_cache_iff nth_append)
      have s2: "same_but_cache h h2" unfolding h2_def h1_def by (rule same_but_cache_new)
      note u = make_move_unfold[OF ps Some, of en h, folded h1_def, folded h2_def]
      show ?thesis
      proof (cases "av_find h1 (available_moves b) (length h)")
        case None
        with u s1 Move show ?thesis by (simp add: final_store_Inl)
      next
        case av: (Some x)
        define b1 where "b1 = b\<lparr>available_moves :=
            av_del h1 (available_moves b) (length h) @ [(length h, [])],
          relevant_piece_squares := fold (swap_in h1 (length h))
            (map fst (possible_squares (h1 ! length h))) (relevant_piece_squares b)\<rparr>"
        note u1 = u[folded b1_def]
        show ?thesis
        proof (cases "color (piece (h1 ! length h)) \<noteq> turn (state b1)")
          case True
          with u1 av s1 Move show ?thesis by (simp add: final_store_Inl)
        next
          case turn_ok: False
          show ?thesis
          proof (cases "get_position en")
            case (Inl e)
            with u1 av turn_ok s1 Move show ?thesis by (simp add: final_store_Inl)
          next
            case pe: (Inr pe)
            show ?thesis
            proof (cases "capture pe h1 b1")
              case (Inl x)
              obtain e h' where x: "x = (e, h')" by (cases x)
              with Inl capture_error_store have "h' = h1" by blast
              with u1 av turn_ok pe Inl x s1 Move show ?thesis by (simp add: final_store_Inl)
            next
              case cap: (Inr b2)
              define b3 where "b3 = b2\<lparr>position := dict_del (dict_set (position b2) pe (length h)) ps,
                                        state := take_turn (state b2)\<rparr>"
              note p = prepare_moves_cells[of h2 "length h" None b3]
              show ?thesis
              proof (cases "prepare_moves (length h) None h2 b3")
                case (Inl x)
                with p s2 have "same_but_cache h (final_store (Inl x))"
                  by (auto intro: same_but_cache_trans)
                with u1 av turn_ok pe cap Inl Move show ?thesis by (simp add: b3_def)
              next
                case pr: (Inr y)
                obtain h3 b4 where y: "y = (h3, b4)" by (cases y)
                from p pr y s2 have s3: "same_but_cache h h3"
                  by (auto simp: final_store_Inr intro: same_but_cache_trans)
                define b5 where "b5 = b4\<lparr>relevant_piece_squares :=
                    dd_update (relevant_piece_squares b4) ps (\<lambda>x. x)\<rparr>"
                from prepare_all_cells[of h3 "dd_get (relevant_piece_squares b5) ps" "Some (Move st en)" b5] s3
                have "same_but_cache h (final_store
                    (prepare_all (dd_get (relevant_piece_squares b5) ps) (Some (Move st en)) h3 b5))"
                  by (auto intro: same_but_cache_trans)
                with u1 av turn_ok pe cap pr y Move show ?thesis by (simp add: b3_def b5_def)
              qed
            qed
          qed
        qed
      qed
    qed
  qed
qed

lemma make_child_cells: "same_but_cache h (final_store (make_child m h b))"
  by (cases "kl_move (king_squares (state b)) m")
    (simp_all add: make_child_def final_store_Inl same_but_cache_refl make_move_cells)

lemma tracker_kept_refl: "tracker_kept b b"
  by (simp add: tracker_kept_def)

lemma tracker_kept_trans: "tracker_kept b b1 \<Longrightarrow> tracker_kept b1 b2 \<Longrightarrow> tracker_kept b b2"
  by (simp add: tracker_kept_def)

lemma visit_tracker:
  assumes "visit r v sq t h b = Inr (h', b', t')"
  shows "tracker_kept b b'"
  using assms
  by (auto simp: visit_def Let_def tracker_kept_def split: sum.splits option.splits if_splits)

lemma scan_tracker:
  "scan n r v d sq t h b = Inr (h', b') \<Longrightarrow> tracker_kept b b'"
proof (induction n arbitrary: d sq t h b)
  case 0
  then show ?case by (simp add: tracker_kept_refl split: if_splits)
next
  case (Suc n)
  show ?case
  proof (cases "exceeds d (max_distance v) \<or> \<not> is_valid sq")
    case True
    with Suc.prems show ?thesis by (auto simp: tracker_kept_refl split: if_splits)
  next
    case False
    with Suc.prems obtain k h2 b2 t2 where
      vis: "visit r v sq t (h[r := (h ! r)\<lparr>possible_squares := dict_set (possible_squares (h ! r)) k v\<rparr>]) b = Inr (h2, b2, t2)" and
      rest: "scan n r v (d + 1) (apply_diff sq (direction v)) t2 h2 b2 = Inr (h', b')"
      by (auto simp: Let_def split: sum.splits)
    from Suc.IH[OF rest] visit_tracker[OF vis] show ?thesis by (rule tracker_kept_trans[rotated])
  qed
qed

lemma scan_vectors_tracker:
  "scan_vectors r vs h b = Inr (h', b') \<Longrightarrow> tracker_kept b b'"
proof (induction vs arbitrary: h b)
  case Nil
  then show ?case by (simp add: tracker_kept_refl)
next
  case (Cons v vs)
  from Cons.prems obtain h1 b1 where
    s: "scan 8 r v 1 (apply_diff (square (h ! r)) (direction v)) False h b = Inr (h1, b1)" and
    rest: "scan_vectors r vs h1 b1 = Inr (h', b')"
    by (auto split: sum.splits)
  from scan_tracker[OF s] Cons.IH[OF rest] show ?case by (rule tracker_kept_trans)
qed

lemma update_scan_tracker:
  assumes "update_scan r m h b = Inr (h', b')"
  shows "tracker_kept b b'"
proof (cases m)
  case EmptyMove
  with assms show ?thesis by (simp add: update_scan_def)
next
  case (Move st en)
  with assms obtain ps pe h1 b1 where
    first: "(case map_of (possible_squares (h ! r)) ps of None \<Rightarrow> Inr (h, b)
             | Some v \<Rightarrow> scan 8 r v 1 st False h b) = Inr (h1, b1)" and
    second: "(case map_of (possible_squares (h1 ! r)) pe of None \<Rightarrow> Inr (h1, b1)
             | Some v \<Rightarrow> scan 8 r v 1 en False h1 b1) = Inr (h', b')"
    by (auto simp: update_scan_def split: sum.splits)
  from first have "tracker_kept b b1"
    by (auto simp: tracker_kept_refl split: option.splits dest: scan_tracker)
  moreover from second have "tracker_kept b1 b'"
    by (auto simp: tracker_kept_refl split: option.splits dest: scan_tracker)
  ultimately show ?thesis by (rule tracker_kept_trans)
qed

lemma prepare_moves_tracker:
  "prepare_moves r mo h b = Inr (h', b') \<Longrightarrow> tracker_kept b b'"
  by (auto simp: prepare_moves_def split: option.splits
        dest: scan_vectors_tracker update_scan_tracker)

lemma prepare_all_tracker:
  "prepare_all rs mo h b = Inr (h', b') \<Longrightarrow> tracker_kept b b'"
proof (induction rs arbitrary: h b)
  case Nil
  then show ?case by (simp add: tracker_kept_refl)
next
  case (Cons r rs)
  from Cons.prems obtain h1 b1 where
    p: "prepare_moves r mo h b = Inr (h1, b1)" and
    rest: "prepare_all rs mo h1 b1 = Inr (h', b')"
    by (auto split: sum.splits)
  from prepare_moves_tracker[OF p] Cons.IH[OF rest] show ?case by (rule tracker_kept_trans)
qed

lemma capture_state:
  "capture pe h b = Inr b2 \<Longrightarrow>
   turn (state b2) = turn (state b) \<and> next_turn (state b2) = next_turn (state b) \<and>
   check_vectors (state b2) = check_vectors (state b)"
  by (auto simp: capture_def Let_def split: option.splits)

lemma make_move_tracker:
  assumes "make_move m h b = Inr (h', b')"
  shows "turn (state b') = next_turn (state b) \<and> next_turn (state b') = turn (state b) \<and>
         check_vectors (state b') (turn (state b)) = check_vectors (state b) (turn (state b))"
proof (cases m)
  case EmptyMove
  with assms show ?thesis by (simp add: make_move_def)
next
  case (Move st en)
  from assms[unfolded Move] obtain ps r0 pe b2 h3 b4 where
    cap: "capture pe (h @ [h ! r0])
       (b\<lparr>available_moves := av_del (h @ [h ! r0]) (available_moves b) (length h) @ [(length h, [])],
          relevant_piece_squares :=
            fold (swap_in (h @ [h ! r0]) (length h))
              (map fst (possible_squares ((h @ [h ! r0]) ! length h)))
              (relevant_piece_squares b)\<rparr>) = Inr b2" and
    prep: "prepare_moves (length h) None
       ((h @ [h ! r0])[length h := gp_move ((h @ [h ! r0]) ! length h) en])
       (b2\<lparr>position := dict_del (dict_set (position b2) pe (length h)) ps,
           state := take_turn (state b2)\<rparr>) = Inr (h3, b4)" and
    fin: "prepare_all
       (dd_get (dd_update (relevant_piece_squares b4) ps (\<lambda>x. x)) ps) (Some (Move st en)) h3
       (b4\<lparr>relevant_piece_squares := dd_update (relevant_piece_squares b4) ps (\<lambda>x. x)\<rparr>) = Inr (h', b')"
    by (rule make_move_steps)
  from capture_state[OF cap] have s2: "turn (state b2) = turn (state b)"
    "next_turn (state b2) = next_turn (state b)" "check_vectors (state b2) = check_vectors (state b)"
    by simp_all
  from prepare_moves_tracker[OF prep] s2
  have s4: "turn (state b4) = next_turn (state b)" "next_turn (state b4) = turn (state b)"
    "check_vectors (state b4) (turn (state b)) = check_vectors (state b) (turn (state b))"
    by (simp_all add: tracker_kept_def take_turn_def)
  from prepare_all_tracker[OF fin] s4 show ?thesis
    by (simp add: tracker_kept_def)
qed

lemma make_child_tracker:
  assumes "make_child m h b = Inr (h', c)"
  shows "check_vectors (state c) (turn (state b)) = check_vectors (state b) (turn (state b)) \<and>
         next_turn (state c) = turn (state b) \<and> turn (state c) \<noteq> turn (state b)"
proof -
  from assms obtain ks where mm: "make_move m h
      \<lparr>state = new_state m (turn (state b)) (material (state b))
                 (check_vectors (state b) (turn (state b))) ks,
       position = position b, relevant_piece_squares = relevant_piece_squares b,
       available_moves = available_moves b\<rparr> = Inr (h', c)"
    by (auto simp: make_child_def split: sum.splits)
  from make_move_tracker[OF mm] show ?thesis
    by (auto simp: new_state_def Let_def split: if_splits)
qed

text \<open>
  When \<open>make_child\<close> returns, every object of the store has the identifier, the piece and
  the square it had, and the tracker of the side that moves, which the child receives
  from the parent, has the paths it had.  The \<open>possible_squares\<close> caches are not covered.
\<close>

lemma make_child_frame:
  assumes "make_child m h b = Inr (h', c)"
  shows "same_but_cache h h' \<and>
         check_vectors (state c) (turn (state b)) = check_vectors (state b) (turn (state b))"
  using make_child_cells[of h m b] make_child_tracker[OF assms] assms
  by (simp add: final_store_Inr)

section \<open>Move generation on concrete positions\<close>

text \<open>
  Claim C1, at the position king and bishop against king with black to move (white
  Ke1 and Bg5, black Ke8).  The black king is not attacked.  \<open>make_child\<close> for the king
  move e8 to e7 raises nothing although the bishop attacks e7, and the boards that
  \<open>generate_legal_moves\<close> yields contain one whose black king is attacked, as the
  recomputation from the placement shows.  The bishop sees the end square of the move
  but not its start square, and line 251 of \<^verbatim>\<open>make_move\<close> rescans only the pieces that see
  the start square.
\<close>

theorem king_may_step_into_attack:
  "(case bishop_ending of
      Inl x \<Rightarrow> False
    | Inr (h, b) \<Rightarrow>
        turn (state b) = BLACK \<and> \<not> king_attacked h b BLACK \<and> yields_attacked_king h b \<and>
        (case make_child (mv ''e8'' ''e7'') h b of
           Inl x \<Rightarrow> False
         | Inr (h1, c) \<Rightarrow> king_attacked h1 c BLACK))"
  by code_simp

text \<open>
  Claim C2, at the position with a bishop each (white Kg1 and Bg5, black Kg8 and Bf8)
  after the child for f8 to e7 is made.  In the child the white bishop (object 1) still
  has d8, behind the black bishop now on e7, among its destinations, and the moved
  bishop (identifier 3) is still recorded as seeing g7, which it saw from f8.  After
  \<open>rebuild\<close> of the same board neither holds.
\<close>

theorem incremental_indexes_differ_from_rebuild:
  "(case play [mv ''f8'' ''e7''] two_bishops of
      Inl x \<Rightarrow> False
    | Inr (h, b) \<Rightarrow>
        (case rebuild h b of
           Inl x \<Rightarrow> False
         | Inr (h1, b1) \<Rightarrow>
             square_named ''d8'' \<in> set (av_get h (available_moves b) 1) \<and>
             square_named ''d8'' \<notin> set (av_get h1 (available_moves b1) 1) \<and>
             pset_mem h 3 (dd_get (relevant_piece_squares b) (name_key ''g7'')) \<and>
             \<not> pset_mem h1 3 (dd_get (relevant_piece_squares b1) (name_key ''g7''))))"
  by code_simp

text \<open>
  Claim C3, at the position with the white knight on e4 before the white pawn on e2.
  The pawn on e2 is object 2 of the store, and its cache has no entry for e5.  After
  \<open>make_child\<close> of the parent for the knight move e4 to g5, the same object 2, which the
  parent still holds, has an entry for e5, and the child lists e5 as a destination of
  the pawn.  The children share every piece but the moved one with the parent, and
  \<^verbatim>\<open>update_moves\<close> restarts the count of the distance at the start square of the move,
  so the rescan of the pawn writes a third square into the shared cache.
\<close>

theorem child_writes_parent_cache:
  "(case knight_before_pawn of
      Inl x \<Rightarrow> False
    | Inr (h, b) \<Rightarrow>
        map_of (position b) (name_key ''e2'') = Some 2 \<and>
        map_of (possible_squares (h ! 2)) (name_key ''e5'') = None \<and>
        (case make_child (mv ''e4'' ''g5'') h b of
           Inl x \<Rightarrow> False
         | Inr (h1, c) \<Rightarrow>
             map_of (possible_squares (h1 ! 2)) (name_key ''e5'') \<noteq> None \<and>
             square_named ''e5'' \<in> set (av_get h1 (available_moves c) 2)))"
  by code_simp

text \<open>
  Claim C4, at the position with the white queen behind the white king on the open
  e-file (white Ke2 and Qe1, black Ke8 and Bc8), after the children for c8 to g4 (check
  by the bishop) and then e2 to d3 (the king steps off the file, check by the queen).
  Black is to move and both trackers are non-empty: the tracker of white, the side that
  has just moved, still holds the path of the bishop.
\<close>

theorem both_trackers_nonempty:
  "(case play [mv ''c8'' ''g4'', mv ''e2'' ''d3''] open_file of
      Inl x \<Rightarrow> False
    | Inr (h, b) \<Rightarrow>
        turn (state b) = BLACK \<and> check_vectors (state b) WHITE \<noteq> [] \<and>
        check_vectors (state b) BLACK \<noteq> [])"
  by code_simp

section \<open>The search tree\<close>

text \<open>
  Claim C5, at the engine on the board where the white pawn on b4 can only take the
  rook on c5 (material 5) or the queen on a5 (material 9), after \<open>build_tree\<close> with depth 1.
  The sorted child scores are 5 and 9 and the score of the root is \<open>9 * 0.5 = 4.5\<close>: the
  last pair times the smallest weight.  The weighted sum over all pairs would be
  \<open>5 + 9 * 0.5 = 9.5\<close>, and \<open>9 + 5 * 0.5 = 11.5\<close> with the favourable child first.
\<close>

theorem score_keeps_last_child_only:
  "(case two_captures_tree of
      Some (Inr (w, e)) \<Rightarrow>
        map fst (sorted_child_scores (node w (root e))) = [5, 9] \<and>
        score (node w (root e)) = 9 / 2 \<and>
        spec_weighted_sum (sorted_child_scores (node w (root e))) = 19 / 2 \<and>
        spec_weighted_sum (rev (sorted_child_scores (node w (root e)))) = 23 / 2
    | _ \<Rightarrow> False)"
  by code_simp

text \<open>
  Claim C6, at the engine on the smothered mate after \<open>build_tree\<close> with depth 1: the
  root is flagged \<open>is_checkmate\<close>, white is to move and its king is attacked, and the
  score is \<open>+100\<close>.
\<close>

theorem mated_white_scores_plus_100:
  "(case engine_on smothered (Finite 1) Infinite of
      Inl x \<Rightarrow> False
    | Inr (w, e) \<Rightarrow>
        (case build_tree e w of
           Some (Inr (w1, e1)) \<Rightarrow>
             is_checkmate (node w1 (root e1)) \<and>
             turn (state (board (node w1 (root e1)))) = WHITE \<and>
             king_attacked (pieces w1) (board (node w1 (root e1))) WHITE \<and>
             score (node w1 (root e1)) = 100
         | _ \<Rightarrow> False))"
  by code_simp

subsection \<open>Termination of \<open>build_tree\<close>\<close>

lemma terminal_root_gen:
  assumes "terminal_root n w"
  shows "generate_legal_moves (pieces w) (board (node w n)) = Inr (pieces w, [])"
proof (cases "generate_legal_moves (pieces w) (board (node w n))")
  case (Inl x)
  with assms show ?thesis by (simp add: terminal_root_def)
next
  case (Inr y)
  obtain h cs where y: "y = (h, cs)" by (cases y)
  with Inr assms have "h = pieces w" "cs = []"
    by (simp_all add: terminal_root_def split: list.splits)
  with Inr y show ?thesis by simp
qed

lemma expand_terminal:
  assumes t: "terminal_root n w"
  shows "\<exists>w'. expand_all (leaves w n) w = Inr w' \<and> terminal_root n w'"
proof -
  from t have n: "n < length (nodes w)" and par: "parent (node w n) = None"
    and lv: "leaves w n = [n]"
    by (simp_all add: terminal_root_def)
  note gen = terminal_root_gen[OF t]
  define w1 where "w1 = reset_children n w"
  have w1: "pieces w1 = pieces w" "board (node w1 n) = board (node w n)"
    "children (node w1 n) = []" "parent (node w1 n) = None" "length (nodes w1) = length (nodes w)"
    "leaf_nodes (node w1 n) = length (sets w)" "sets w1 = sets w @ [[]]" "size (node w1 n) = 1"
    using n par by (simp_all add: w1_def reset_children_def node_def set_node_def Let_def)
  have w1p: "w1\<lparr>pieces := pieces w\<rparr> = w1" using w1(1) by simp
  define w2 where "w2 = add_self_leaf n w1"
  have w2: "pieces w2 = pieces w" "board (node w2 n) = board (node w n)"
    "children (node w2 n) = []" "parent (node w2 n) = None" "length (nodes w2) = length (nodes w)"
    "leaf_nodes (node w2 n) = length (sets w)" "sets w2 = sets w @ [[n]]" "size (node w2 n) = 1"
    using w1 by (simp_all add: w2_def add_self_leaf_def node_def leaves_def)
  define s where "s = state (board (node w n))"
  define w3 where "w3 = (if check_vectors s (turn s) \<noteq> []
       then set_node n ((node w2 n)\<lparr>is_checkmate := True\<rparr>) w2
       else set_node n ((node w2 n)\<lparr>is_stalemate := True\<rparr>) w2)"
  have w3: "pieces w3 = pieces w" "board (node w3 n) = board (node w n)"
    "parent (node w3 n) = None" "length (nodes w3) = length (nodes w)"
    "leaf_nodes (node w3 n) = length (sets w)" "sets w3 = sets w @ [[n]]" "size (node w3 n) = 1"
    using w2 n by (simp_all add: w3_def node_def set_node_def)
  have g1: "generate_legal_moves (pieces w1) (board (node w1 n)) = Inr (pieces w, [])"
    using gen w1 by simp
  have "prepare_children n w = notify_parent n w3"
    unfolding prepare_children_def Let_def w1_def[symmetric] g1
    by (simp add: w1p w1 w2_def[symmetric] w3_def s_def)
  then have "prepare_children n w = Inr w3"
    using w3 by (simp add: notify_parent_def)
  moreover have "terminal_root n w3"
    using w3 n gen by (simp add: terminal_root_def leaves_def)
  ultimately show ?thesis using lv by auto
qed


lemma build_loop_never:
  assumes "terminal_root (root e) w" "max_depth e = Infinite" "max_breadth e = Finite c" "1 < c"
  shows "build_loop e w = None"
proof (rule ccontr)
  assume "build_loop e w \<noteq> None"
  then obtain y where y: "build_loop e w = Some y" by auto
  have "\<not> (terminal_root (root e) w \<and> max_depth e = Infinite \<and> max_breadth e = Finite c)"
  proof (rule build_loop.raw_induct
      [where P = "\<lambda>e w y. \<not> (terminal_root (root e) w \<and> max_depth e = Infinite \<and>
                                 max_breadth e = Finite c)", OF _ y])
    fix loop :: "Engine \<Rightarrow> world \<Rightarrow> ((error \<times> world \<times> Engine) + (world \<times> Engine)) option"
      and e w y
    assume ih: "\<And>e w y. loop e w = Some y \<Longrightarrow>
        \<not> (terminal_root (root e) w \<and> max_depth e = Infinite \<and> max_breadth e = Finite c)"
    assume eq: "(if below (depth e) (max_depth e) \<and> below (size (node w (root e))) (max_breadth e)
          then case expand_all (leaves w (root e)) w of
                 Inl (x, w1) \<Rightarrow> Some (Inl (x, w1, e))
               | Inr w1 \<Rightarrow> loop (e\<lparr>depth := depth e + 1\<rparr>) w1
          else Some (Inr (w, e))) = Some y"
    show "\<not> (terminal_root (root e) w \<and> max_depth e = Infinite \<and> max_breadth e = Finite c)"
    proof
      assume a: "terminal_root (root e) w \<and> max_depth e = Infinite \<and> max_breadth e = Finite c"
      then have guard: "below (depth e) (max_depth e) \<and>
          below (size (node w (root e))) (max_breadth e)"
        using assms(4) by (simp add: terminal_root_def)
      from a expand_terminal obtain w' where
        w': "expand_all (leaves w (root e)) w = Inr w'" "terminal_root (root e) w'" by blast
      from eq guard w' have "loop (e\<lparr>depth := depth e + 1\<rparr>) w' = Some y" by simp
      from ih[OF this] w'(2) a show False by simp
    qed
  qed
  with assms show False by simp
qed

lemma finite_depth_returns:
  assumes "max_depth e = Finite d"
  shows "\<exists>y. build_loop e w = Some y"
  using assms
proof (induction "nat \<lceil>d - of_int (depth e)\<rceil>" arbitrary: e w rule: less_induct)
  case less
  show ?case
  proof (cases "below (depth e) (max_depth e) \<and> below (size (node w (root e))) (max_breadth e)")
    case False
    then show ?thesis by (subst build_loop.simps) auto
  next
    case True
    show ?thesis
    proof (cases "expand_all (leaves w (root e)) w")
      case (Inl x)
      with True show ?thesis by (subst build_loop.simps) (auto split: prod.splits)
    next
      case (Inr w1)
      from True less.prems have lt: "of_int (depth e) < d" by simp
      have "nat \<lceil>d - of_int (depth (e\<lparr>depth := depth e + 1\<rparr>))\<rceil> < nat \<lceil>d - of_int (depth e)\<rceil>"
        using lt by (simp add: nat_less_iff) linarith
      from less.hyps[OF this, of w1] less.prems
      obtain y where "build_loop (e\<lparr>depth := depth e + 1\<rparr>) w1 = Some y" by auto
      with True Inr show ?thesis by (subst build_loop.simps) auto
    qed
  qed
qed

lemma finite_depth_build_tree:
  assumes "max_depth e = Finite d"
  shows "\<exists>y. build_tree e w = Some y"
  using finite_depth_returns[OF assms, of w]
  by (auto simp: build_tree_def split: sum.splits prod.splits)

text \<open>
  Claim C8, at the engine on the smothered mate with unlimited depth and a breadth cap
  of 2 nodes: the root has no children to gain, its size stays 1, and the loop of
  \<open>build_tree\<close> never exits.  (With a finite depth it always exits:
  \<open>finite_depth_build_tree\<close>.)
\<close>

theorem breadth_only_budget_loops:
  "(case engine_on smothered Infinite (Finite 2) of
      Inl x \<Rightarrow> False
    | Inr (w, e) \<Rightarrow> build_tree e w = None)"
proof -
  have ev: "(case engine_on smothered Infinite (Finite 2) of
      Inl x \<Rightarrow> False
    | Inr (w, e) \<Rightarrow> terminal_root (root e) w \<and> max_depth e = Infinite \<and> max_breadth e = Finite 2)"
    by code_simp
  then obtain w e where we: "engine_on smothered Infinite (Finite 2) = Inr (w, e)"
    and t: "terminal_root (root e) w" "max_depth e = Infinite" "max_breadth e = Finite 2"
    by (auto split: sum.splits)
  from build_loop_never[OF t] have "build_tree e w = None" by (simp add: build_tree_def)
  with we show ?thesis by simp
qed


subsection \<open>\<open>Engine.make_move\<close> with a move that is not a child\<close>

lemma valid_position: "is_valid s \<Longrightarrow> \<exists>k. get_position s = Inr k"
  by (simp add: is_valid_def get_position_def py_index_def)

text \<open>
  Claim C10.  If the move is not a key of the children of the root, then
  \<open>Engine.make_move\<close> raises an exception and leaves the world, and with it the engine
  (root, parent of the root, depth), as it was, and \<open>Game.make_move\<close> raises the same
  exception and leaves the game with its history as it was.  The exception is
  \<open>KeyError\<close> for every \<^verbatim>\<open>Move\<close> between two squares of the board, which are the moves
  that \<^verbatim>\<open>cli.do_move\<close> builds with \<^verbatim>\<open>Square.from_name\<close> and passes on.
\<close>

theorem unknown_move_leaves_engine_unchanged:
  assumes "\<not> is_child_key m (engine g) w"
  shows "\<exists>x. engine_make_move m (engine g) w = Inl (x, w) \<and>
             game_make_move m g w = Some (Inl (x, w, g)) \<and>
             ((\<exists>s t. m = Move s t \<and> is_valid s \<and> is_valid t) \<longrightarrow> x = KeyError)"
proof (cases "move_key m")
  case (Inl x)
  have "\<not> (\<exists>s t. m = Move s t \<and> is_valid s \<and> is_valid t)"
  proof
    assume "\<exists>s t. m = Move s t \<and> is_valid s \<and> is_valid t"
    then obtain s t where "m = Move s t" "is_valid s" "is_valid t" by blast
    with valid_position[of s] valid_position[of t] Inl show False
      by (auto simp: move_key_def)
  qed
  with Inl show ?thesis
    by (auto simp add: engine_make_move_def game_make_move_def)
next
  case (Inr k)
  with assms have "map_of (children (node w (root (engine g)))) k = None"
    by (simp add: is_child_key_def)
  with Inr show ?thesis
    by (simp add: engine_make_move_def game_make_move_def)
qed

theorem unknown_move_witness:
  "\<exists>w e. two_captures_tree = Some (Inr (w, e)) \<and>
     \<not> is_child_key (mv ''e2'' ''e4'') e w \<and>
     engine_make_move (mv ''e2'' ''e4'') e w = Inl (KeyError, w) \<and>
     game_make_move (mv ''e2'' ''e4'') \<lparr>engine = e, history = []\<rparr> w =
       Some (Inl (KeyError, w, \<lparr>engine = e, history = []\<rparr>))"
proof -
  have "(case two_captures_tree of
           Some (Inr (w, e)) \<Rightarrow> \<not> is_child_key (mv ''e2'' ''e4'') e w
         | _ \<Rightarrow> False)"
    by code_simp
  then obtain w e where t: "two_captures_tree = Some (Inr (w, e))"
    and nk: "\<not> is_child_key (mv ''e2'' ''e4'') e w"
    by (auto split: option.splits sum.splits)
  have v: "\<exists>s t. mv ''e2'' ''e4'' = Move s t \<and> is_valid s \<and> is_valid t"
    by (simp add: mv_def square_named_def is_valid_def cols_def rows_def)
  from unknown_move_leaves_engine_unchanged[of "mv ''e2'' ''e4''" "\<lparr>engine = e, history = []\<rparr>" w]
    nk v
  have "engine_make_move (mv ''e2'' ''e4'') e w = Inl (KeyError, w) \<and>
        game_make_move (mv ''e2'' ''e4'') \<lparr>engine = e, history = []\<rparr> w =
          Some (Inl (KeyError, w, \<lparr>engine = e, history = []\<rparr>))"
    by auto
  with t nk show ?thesis by blast
qed

end
